theory Spec2Isabelle
  imports Main
begin

section \<open>Python values and dictionaries\<close>

text \<open>
  The nested mappings of \<^verbatim>\<open>param_impl.py\<close> are Python dictionaries with string keys whose
  values are either dictionaries again (\<^verbatim>\<open>isinstance(v, MutableMapping)\<close>) or anything else.
  A value that is not a mapping is a \<open>Leaf\<close>: whatever fails that test, be it a number, a
  string, a list or an instance of a class of the file.

  A dictionary keeps its keys in insertion order and holds each key once, so it is an
  association list that is only changed through \<open>setitem\<close>: assigning to a key that is present
  keeps the key's position, assigning to a new key appends it.
\<close>

datatype 'a nested = Leaf 'a | Dict "(string \<times> 'a nested) list"

type_synonym 'a dict = "(string \<times> 'a nested) list"

datatype error = ValueError string | TypeError | AttributeError

text \<open>\<^verbatim>\<open>d[k] = v\<close>\<close>

fun setitem :: "string \<Rightarrow> 'v \<Rightarrow> (string \<times> 'v) list \<Rightarrow> (string \<times> 'v) list" where
  "setitem k v [] = [(k, v)]"
| "setitem k v ((k', v') # d) = (if k' = k then (k, v) # d else (k', v') # setitem k v d)"

text \<open>\<^verbatim>\<open>d.get(k)\<close>\<close>

fun getitem :: "(string \<times> 'v) list \<Rightarrow> string \<Rightarrow> 'v option" where
  "getitem [] k = None"
| "getitem ((k', v') # d) k = (if k' = k then Some v' else getitem d k)"

text \<open>\<^verbatim>\<open>d.update(other)\<close>: one item assignment per entry of \<open>other\<close>, in its order.\<close>

fun update_dict :: "(string \<times> 'v) list \<Rightarrow> (string \<times> 'v) list \<Rightarrow> (string \<times> 'v) list" where
  "update_dict [] d = d"
| "update_dict ((k, v) # other) d = update_dict other (setitem k v d)"

text \<open>
  Python's \<^verbatim>\<open>==\<close> on dictionaries ignores the order of the keys: two dictionaries are equal
  when they have the same number of entries and every key of the first is a key of the second
  with an equal value.
\<close>

fun py_eq :: "'a nested \<Rightarrow> 'a nested \<Rightarrow> bool" where
  "py_eq (Leaf x) (Leaf y) = (x = y)"
| "py_eq (Dict d) (Dict e) =
     (length d = length e \<and>
      list_all (\<lambda>kv. case getitem e (fst kv) of None \<Rightarrow> False | Some w \<Rightarrow> py_eq (snd kv) w) d)"
| "py_eq _ _ = False"

section \<open>Strings\<close>

text \<open>\<^verbatim>\<open>s.startswith(p)\<close> and \<^verbatim>\<open>s.endswith(p)\<close>\<close>

definition startswith :: "string \<Rightarrow> string \<Rightarrow> bool" where
  "startswith s p = (take (length p) s = p)"

definition endswith :: "string \<Rightarrow> string \<Rightarrow> bool" where
  "endswith s p = (length p \<le> length s \<and> drop (length s - length p) s = p)"

text \<open>
  \<^verbatim>\<open>s.split(sep, 1)\<close> for a non-empty separator: \<open>None\<close> when \<open>sep\<close> does not occur in \<open>s\<close>
  (Python returns the one-element list \<^verbatim>\<open>[s]\<close>), otherwise the text before and the text after
  the leftmost occurrence.
\<close>

fun split_once :: "string \<Rightarrow> string \<Rightarrow> (string \<times> string) option" where
  "split_once sep [] = (if sep = [] then Some ([], []) else None)"
| "split_once sep (c # cs) =
     (if startswith (c # cs) sep then Some ([], drop (length sep) (c # cs))
      else (case split_once sep cs of
              None \<Rightarrow> None
            | Some (a, b) \<Rightarrow> Some (c # a, b)))"

lemma split_once_shorter:
  "split_once sep s = Some (a, b) \<Longrightarrow> sep \<noteq> [] \<Longrightarrow> length b < length s"
proof (induction s arbitrary: a b)
  case Nil
  then show ?case by simp
next
  case (Cons c cs)
  show ?case
  proof (cases "startswith (c # cs) sep")
    case True
    with Cons.prems show ?thesis by auto
  next
    case False
    with Cons.prems obtain a' where "split_once sep cs = Some (a', b)"
      by (auto split: option.splits)
    from Cons.IH[OF this Cons.prems(2)] show ?thesis by simp
  qed
qed

text \<open>\<^verbatim>\<open>s.split(sep)\<close> for a non-empty separator; Python raises ValueError on an empty one.\<close>

function split_all :: "string \<Rightarrow> string \<Rightarrow> string list" where
  "split_all sep s =
     (if sep = [] then [s]
      else (case split_once sep s of
              None \<Rightarrow> [s]
            | Some (a, b) \<Rightarrow> a # split_all sep b))"
  by pat_completeness auto
termination
  by (relation "measure (\<lambda>(sep, s). length s)") (auto dest: split_once_shorter)

definition split :: "string \<Rightarrow> string \<Rightarrow> error + string list" where
  "split s sep = (if sep = [] then Inl (ValueError ''empty separator'') else Inr (split_all sep s))"

text \<open>\<^verbatim>\<open>sep.join(parts)\<close>\<close>

fun join :: "string \<Rightarrow> string list \<Rightarrow> string" where
  "join sep [] = []"
| "join sep [p] = p"
| "join sep (p # q # ps) = p @ sep @ join sep (q # ps)"

section \<open>nest_dict and flatten_dict\<close>

text \<open>
  \<^verbatim>\<open>
  def nest_dict(flat, sep='.'):
      def _nest_dict_rec(k, v, out, sep='.'):
          k, *rest = k.split(sep, 1)
          if rest:
              _nest_dict_rec(rest[0], v, out.setdefault(k, {}))
          else:
              out[k] = v
      result = {}
      for k, v in flat.items():
          _nest_dict_rec(k, v, result, sep=sep)
      return result
  \<close>
  \<^verbatim>\<open>nest_dict\<close> writes into objects. \<^verbatim>\<open>out[k] = v\<close> stores the object \<open>v\<close> of the caller itself,
  not a copy of it, and \<^verbatim>\<open>out.setdefault(k, {})\<close> hands back the object that is already stored
  under \<open>k\<close>, into which the recursive call then writes; what the two do depends on the
  object. So the objects are the cells of a store, a cell is addressed by its position, and
  a value is the address of its cell:

    \<^item> \<open>CLeaf x\<close> is an object with neither an item assignment for a string key nor a
      \<^verbatim>\<open>setdefault\<close>: a number, a string, None, a tuple, a list;
    \<^item> \<open>CDict es\<close> is a dict with the entries \<open>es\<close>, in insertion order;
    \<^item> \<open>CInst es\<close> is an instance of \<^verbatim>\<open>DictDataClass\<close> or of a subclass of it, with the
      attributes \<open>es\<close>: its \<^verbatim>\<open>__setitem__\<close> is \<^verbatim>\<open>setattr\<close>, and it has no \<^verbatim>\<open>setdefault\<close>.

  A new dict is a new cell at the end of the store. An address outside the store is no
  object; the functions answer there as they do for a \<open>CLeaf\<close>.
\<close>

datatype 'a cell = CLeaf 'a | CDict "(string \<times> nat) list" | CInst "(string \<times> nat) list"

type_synonym 'a store = "'a cell list"

definition cell_at :: "'a store \<Rightarrow> nat \<Rightarrow> 'a cell option" where
  "cell_at h a = (if a < length h then Some (h ! a) else None)"

text \<open>\<^verbatim>\<open>out[k] = v\<close>: TypeError when \<open>out\<close> does not support item assignment.\<close>

definition setitem_obj :: "'a store \<Rightarrow> nat \<Rightarrow> string \<Rightarrow> nat \<Rightarrow> error + 'a store" where
  "setitem_obj h out k v =
     (case cell_at h out of
        Some (CDict es) \<Rightarrow> Inr (h[out := CDict (setitem k v es)])
      | Some (CInst es) \<Rightarrow> Inr (h[out := CInst (setitem k v es)])
      | Some (CLeaf x) \<Rightarrow> Inl TypeError
      | None \<Rightarrow> Inl TypeError)"

text \<open>
  \<^verbatim>\<open>out.setdefault(k, {})\<close>: the object stored under \<open>k\<close> when there is one, otherwise a new
  empty dict, which is stored under \<open>k\<close>; AttributeError when \<open>out\<close> is not a dict.
\<close>

definition setdefault_obj :: "'a store \<Rightarrow> nat \<Rightarrow> string \<Rightarrow> error + ('a store \<times> nat)" where
  "setdefault_obj h out k =
     (case cell_at h out of
        Some (CDict es) \<Rightarrow>
          (case getitem es k of
             Some a \<Rightarrow> Inr (h, a)
           | None \<Rightarrow> Inr (h[out := CDict (es @ [(k, length h)])] @ [CDict []], length h))
      | Some (CInst es) \<Rightarrow> Inl AttributeError
      | Some (CLeaf x) \<Rightarrow> Inl AttributeError
      | None \<Rightarrow> Inl AttributeError)"

text \<open>
  \<^verbatim>\<open>_nest_dict_rec\<close>. The recursive call does not pass \<open>sep\<close> on, so every split after the
  first one is at \<^verbatim>\<open>'.'\<close>.
\<close>

function nest_dict_rec :: "string \<Rightarrow> nat \<Rightarrow> nat \<Rightarrow> string \<Rightarrow> 'a store \<Rightarrow> error + 'a store" where
  "nest_dict_rec k v out sep h =
     (if sep = [] then Inl (ValueError ''empty separator'')
      else (case split_once sep k of
              None \<Rightarrow> setitem_obj h out k v
            | Some (k1, rest) \<Rightarrow>
                (case setdefault_obj h out k1 of
                   Inl e \<Rightarrow> Inl e
                 | Inr (h', sub) \<Rightarrow> nest_dict_rec rest v sub ''.'' h')))"
  by pat_completeness auto
termination
  by (relation "measure (\<lambda>(k, v, out, sep, h). length k)") (auto dest: split_once_shorter)

text \<open>
  The loop, over the entries of \<open>flat\<close>: each key with the address of its value. \<open>flat\<close>
  itself is only read; it is taken not to be one of the objects that the loop writes into.
\<close>

fun nest_items :: "(string \<times> nat) list \<Rightarrow> nat \<Rightarrow> string \<Rightarrow> 'a store \<Rightarrow> error + 'a store" where
  "nest_items [] result sep h = Inr h"
| "nest_items ((k, v) # items) result sep h =
     (case nest_dict_rec k v result sep h of
        Inl e \<Rightarrow> Inl e
      | Inr h' \<Rightarrow> nest_items items result sep h')"

text \<open>\<^verbatim>\<open>nest_dict\<close> returns the store as the loop leaves it and the address of \<open>result\<close>.\<close>

definition nest_dict :: "(string \<times> nat) list \<Rightarrow> string \<Rightarrow> 'a store \<Rightarrow> error + ('a store \<times> nat)" where
  "nest_dict items sep h =
     (let result = length h
      in (case nest_items items result sep (h @ [CDict []]) of
            Inl e \<Rightarrow> Inl e
          | Inr h' \<Rightarrow> Inr (h', result)))"

text \<open>
  \<^verbatim>\<open>
  def flatten_dict(d, sep='.', parent_key=''):
      flat_d = {}
      for k, v in d.items():
          if parent_key: k = parent_key + sep + k
          if isinstance(v, MutableMapping):
              flat_d.update(flatten_dict(v, sep=sep, parent_key=k))
          else:
              flat_d[k] = v
      return flat_d
  \<close>
  \<open>flatten_items\<close> is the loop, with \<open>flat_d\<close> as its accumulator.
\<close>

fun flatten_dict :: "'a dict \<Rightarrow> string \<Rightarrow> string \<Rightarrow> 'a dict"
  and flatten_items :: "'a dict \<Rightarrow> string \<Rightarrow> string \<Rightarrow> 'a dict \<Rightarrow> 'a dict"
  and flatten_value :: "string \<Rightarrow> 'a nested \<Rightarrow> string \<Rightarrow> 'a dict \<Rightarrow> 'a dict" where
  "flatten_dict d sep parent_key = flatten_items d sep parent_key []"
| "flatten_items [] sep parent_key flat_d = flat_d"
| "flatten_items ((k, v) # d) sep parent_key flat_d =
     flatten_items d sep parent_key
       (flatten_value (if parent_key \<noteq> [] then parent_key @ sep @ k else k) v sep flat_d)"
| "flatten_value k (Dict d) sep flat_d = update_dict (flatten_dict d sep k) flat_d"
| "flatten_value k (Leaf x) sep flat_d = setitem k (Leaf x) flat_d"

section \<open>DictDataClass.to_flattened_dict\<close>

text \<open>
  \<^verbatim>\<open>
  def to_flattened_dict(self, sep='.'):
      _d  = flatten_dict(self.to_dict())
      # hack to fix tune.grid_search() values as they are themselves dicts
      d = {}
      for k, v in _d.items():
          if k.endswith('grid_search'):
              parts = k.split(sep)
              d[sep.join(parts[:-1])] = {'grid_search': v}
          else:
              d[k] = v
      return d
  \<close>
  \<^verbatim>\<open>to_dict\<close> is \<^verbatim>\<open>attr.asdict\<close>, a library call: it is a parameter of the model.
  \<open>flatten_dict\<close> is called with its default separator and parent key. \<open>grid_search_loop\<close>
  is the loop, with \<open>d\<close> as its accumulator.
\<close>

fun grid_search_loop :: "'a dict \<Rightarrow> string \<Rightarrow> 'a dict \<Rightarrow> error + 'a dict" where
  "grid_search_loop [] sep d = Inr d"
| "grid_search_loop ((k, v) # items) sep d =
     (if endswith k ''grid_search'' then
        (case split k sep of
           Inl e \<Rightarrow> Inl e
         | Inr parts \<Rightarrow>
             grid_search_loop items sep
               (setitem (join sep (butlast parts)) (Dict [(''grid_search'', v)]) d))
      else grid_search_loop items sep (setitem k v d))"

definition to_flattened_dict :: "('t \<Rightarrow> 'a dict) \<Rightarrow> 't \<Rightarrow> string \<Rightarrow> error + 'a dict" where
  "to_flattened_dict to_dict self sep =
     grid_search_loop (flatten_dict (to_dict self) ''.'' []) sep []"

section \<open>Parameters.get_settings\<close>

text \<open>
  A field of a \<^verbatim>\<open>Parameters\<close> instance holds another \<^verbatim>\<open>Parameters\<close> instance, a \<^verbatim>\<open>Settings\<close>
  list, or any other value. An instance is the list of its attributes in the order of
  \<^verbatim>\<open>vars(self)\<close>, which is the order \<^verbatim>\<open>self.items()\<close> visits.
\<close>

datatype 'a val = Value 'a | Parameters "(string \<times> 'a val) list" | Settings "'a val list"

type_synonym 'a fields = "(string \<times> 'a val) list"

fun is_Parameters :: "'a val \<Rightarrow> bool" where
  "is_Parameters (Parameters fs) = True"
| "is_Parameters _ = False"

fun is_Settings :: "'a val \<Rightarrow> bool" where
  "is_Settings (Settings vs) = True"
| "is_Settings _ = False"

text \<open>
  \<^verbatim>\<open>itertools.product(*value_lists)\<close>, as the library documents it:
  \<^verbatim>\<open>
  result = [[]]
  for pool in pools:
      result = [x+[y] for x in result for y in pool]
  \<close>
\<close>

definition product_step :: "'b list \<Rightarrow> 'b list list \<Rightarrow> 'b list list" where
  "product_step pool result = concat (map (\<lambda>x. map (\<lambda>y. x @ [y]) pool) result)"

definition product_pools :: "'b list list \<Rightarrow> 'b list list" where
  "product_pools pools = fold product_step pools [[]]"

text \<open>Values are immutable terms here, so a deep copy of a value is the value.\<close>

definition deepcopy :: "'b \<Rightarrow> 'b" where
  "deepcopy x = x"

text \<open>\<^verbatim>\<open>for k, v in zip(keys, values): setattr(_setting, k, v)\<close>\<close>

fun setattrs :: "(string \<times> 'v) list \<Rightarrow> (string \<times> 'v) list \<Rightarrow> (string \<times> 'v) list" where
  "setattrs [] setting = setting"
| "setattrs ((k, v) # kvs) setting = setattrs kvs (setitem k v setting)"

text \<open>
  The second loop of \<^verbatim>\<open>get_settings\<close>: \<open>setting\<close> is the one working copy \<^verbatim>\<open>_setting\<close>,
  which every pass assigns to and which is carried over to the next pass.
  \<^verbatim>\<open>
  for values in product(*value_lists):
      for k, v in zip(keys, values):
          setattr(_setting, k, v)
      settings.append(deepcopy(_setting))
  \<close>
\<close>

fun settings_loop ::
  "'a val list list \<Rightarrow> string list \<Rightarrow> 'a fields \<Rightarrow> 'a val list \<Rightarrow> 'a val list" where
  "settings_loop [] keys setting settings = settings"
| "settings_loop (values # rest) keys setting settings =
     (let setting' = setattrs (zip keys values) setting
      in settings_loop rest keys setting' (settings @ [deepcopy (Parameters setting')]))"

text \<open>
  \<^verbatim>\<open>
  def get_settings(self):
      keys = []
      value_lists = []
      for k, v in self.items():
          if isinstance(v, Parameters):
              value_lists.append(v.get_settings())
              keys.append(k)
          elif isinstance(v, Settings):
              if len(v) == 0:
                  raise ValueError(f"Empty settings list for {k}")
              if isinstance(v[0], Parameters):
                  value_lists.append([s for _v in v for s in _v.get_settings()])
              else:
                  value_lists.append(v)
              keys.append(k)
      _setting = deepcopy(self)
      settings = []
      for values in product(*value_lists):
          ...
      return settings
  \<close>
  \<open>collect\<close> is the first loop with its two accumulators; \<open>value_list\<close> is the body of that
  loop for one field, \<open>None\<close> for a field that appends nothing; \<open>expand_each\<close> is the list
  comprehension, which calls \<^verbatim>\<open>get_settings\<close> on every element and so raises AttributeError
  on an element that has no such method.
\<close>

fun get_settings :: "'a fields \<Rightarrow> error + 'a val list"
  and collect ::
    "'a fields \<Rightarrow> string list \<Rightarrow> 'a val list list \<Rightarrow> error + (string list \<times> 'a val list list)"
  and value_list :: "string \<Rightarrow> 'a val \<Rightarrow> error + 'a val list option"
  and expand_each :: "'a val list \<Rightarrow> error + 'a val list" where
  "get_settings self =
     (case collect self [] [] of
        Inl e \<Rightarrow> Inl e
      | Inr (keys, value_lists) \<Rightarrow>
          Inr (settings_loop (product_pools value_lists) keys (deepcopy self) []))"
| "collect [] keys value_lists = Inr (keys, value_lists)"
| "collect ((k, v) # items) keys value_lists =
     (case value_list k v of
        Inl e \<Rightarrow> Inl e
      | Inr None \<Rightarrow> collect items keys value_lists
      | Inr (Some vl) \<Rightarrow> collect items (keys @ [k]) (value_lists @ [vl]))"
| "value_list k (Parameters fs) =
     (case get_settings fs of
        Inl e \<Rightarrow> Inl e
      | Inr s \<Rightarrow> Inr (Some s))"
| "value_list k (Settings vs) =
     (if length vs = 0 then Inl (ValueError (''Empty settings list for '' @ k))
      else if is_Parameters (hd vs) then
        (case expand_each vs of
           Inl e \<Rightarrow> Inl e
         | Inr s \<Rightarrow> Inr (Some s))
      else Inr (Some vs))"
| "value_list k (Value x) = Inr None"
| "expand_each [] = Inr []"
| "expand_each (Parameters fs # vs) =
     (case get_settings fs of
        Inl e \<Rightarrow> Inl e
      | Inr s \<Rightarrow>
          (case expand_each vs of
             Inl e \<Rightarrow> Inl e
           | Inr r \<Rightarrow> Inr (s @ r)))"
| "expand_each (v # vs) = Inl AttributeError"

text \<open>The call \<^verbatim>\<open>v.get_settings()\<close> on a value.\<close>

definition get_settings_val :: "'a val \<Rightarrow> error + 'a val list" where
  "get_settings_val v = (case v of Parameters fs \<Rightarrow> get_settings fs | _ \<Rightarrow> Inl AttributeError)"

section \<open>Objects with identity\<close>

text \<open>
  Whether two trees share mutable structure cannot be read off their values, so the
  expansion is modelled a second time on objects that carry their identity: every mutable
  object (a \<^verbatim>\<open>Parameters\<close> instance, a \<^verbatim>\<open>Settings\<close> list, any other mutable value) has a number,
  as \<^verbatim>\<open>id()\<close> gives one, and two occurrences of one number are one object. Immutable values
  (numbers, strings, None) are atoms. New objects take their numbers from a counter that
  every function passes on.
\<close>

datatype 'a obj =
    Atom 'a
  | Mutable nat 'a
  | PObj nat "(string \<times> 'a obj) list"
  | SObj nat "'a obj list"

fun is_PObj :: "'a obj \<Rightarrow> bool" where
  "is_PObj (PObj i fs) = True"
| "is_PObj _ = False"

fun is_SObj :: "'a obj \<Rightarrow> bool" where
  "is_SObj (SObj i vs) = True"
| "is_SObj _ = False"

text \<open>The identities of the mutable objects of a tree.\<close>

fun ids :: "'a obj \<Rightarrow> nat set"
  and ids_fields :: "(string \<times> 'a obj) list \<Rightarrow> nat set"
  and ids_list :: "'a obj list \<Rightarrow> nat set" where
  "ids (Atom x) = {}"
| "ids (Mutable i x) = {i}"
| "ids (PObj i fs) = insert i (ids_fields fs)"
| "ids (SObj i vs) = insert i (ids_list vs)"
| "ids_fields [] = {}"
| "ids_fields ((k, v) # fs) = ids v \<union> ids_fields fs"
| "ids_list [] = {}"
| "ids_list (v # vs) = ids v \<union> ids_list vs"

text \<open>No two objects of the list hold a common object.\<close>

fun disjoint_ids :: "'a obj list \<Rightarrow> bool" where
  "disjoint_ids [] = True"
| "disjoint_ids (c # cs) = ((\<forall>c' \<in> set cs. ids c \<inter> ids c' = {}) \<and> disjoint_ids cs)"

text \<open>The value of an object: the tree without the identities.\<close>

fun erase :: "'a obj \<Rightarrow> 'a val"
  and erase_fields :: "(string \<times> 'a obj) list \<Rightarrow> 'a fields"
  and erase_list :: "'a obj list \<Rightarrow> 'a val list" where
  "erase (Atom x) = Value x"
| "erase (Mutable i x) = Value x"
| "erase (PObj i fs) = Parameters (erase_fields fs)"
| "erase (SObj i vs) = Settings (erase_list vs)"
| "erase_fields [] = []"
| "erase_fields ((k, v) # fs) = (k, erase v) # erase_fields fs"
| "erase_list [] = []"
| "erase_list (v # vs) = erase v # erase_list vs"

text \<open>
  \<^verbatim>\<open>copy.deepcopy\<close>, a library function, on a tree in which no object is referenced twice (the
  ownership rule of the data model): every mutable object is built anew, with the next free
  number, and an atom is returned as it is.
\<close>

fun deepcopy_obj :: "'a obj \<Rightarrow> nat \<Rightarrow> 'a obj \<times> nat"
  and deepcopy_fields :: "(string \<times> 'a obj) list \<Rightarrow> nat \<Rightarrow> (string \<times> 'a obj) list \<times> nat"
  and deepcopy_list :: "'a obj list \<Rightarrow> nat \<Rightarrow> 'a obj list \<times> nat" where
  "deepcopy_obj (Atom x) n = (Atom x, n)"
| "deepcopy_obj (Mutable i x) n = (Mutable n x, Suc n)"
| "deepcopy_obj (PObj i fs) n =
     (case deepcopy_fields fs (Suc n) of (fs', n') \<Rightarrow> (PObj n fs', n'))"
| "deepcopy_obj (SObj i vs) n =
     (case deepcopy_list vs (Suc n) of (vs', n') \<Rightarrow> (SObj n vs', n'))"
| "deepcopy_fields [] n = ([], n)"
| "deepcopy_fields ((k, v) # fs) n =
     (case deepcopy_obj v n of (v', n1) \<Rightarrow>
        (case deepcopy_fields fs n1 of (fs', n2) \<Rightarrow> ((k, v') # fs', n2)))"
| "deepcopy_list [] n = ([], n)"
| "deepcopy_list (v # vs) n =
     (case deepcopy_obj v n of (v', n1) \<Rightarrow>
        (case deepcopy_list vs n1 of (vs', n2) \<Rightarrow> (v' # vs', n2)))"

text \<open>
  \<^verbatim>\<open>for k, v in zip(keys, values): setattr(_setting, k, v)\<close> on the object \<^verbatim>\<open>_setting\<close>: the
  instance keeps its identity and the values are stored as they are, not copied.
\<close>

fun setattrs_obj :: "(string \<times> 'a obj) list \<Rightarrow> 'a obj \<Rightarrow> 'a obj" where
  "setattrs_obj kvs (PObj i fs) = PObj i (setattrs kvs fs)"
| "setattrs_obj kvs v = v"

text \<open>
  The assignments of a call are kept in a log, one entry for every \<^verbatim>\<open>setattr\<close>: the identity
  of the object assigned to, the field and the value. The state that the functions pass on
  is the counter of identities together with this log.
\<close>

type_synonym 'a effect = "nat \<times> string \<times> 'a obj"

type_synonym 'a state = "nat \<times> 'a effect list"

fun setattr_writes :: "(string \<times> 'a obj) list \<Rightarrow> 'a obj \<Rightarrow> 'a effect list" where
  "setattr_writes kvs (PObj i fs) = map (\<lambda>(k, v). (i, k, v)) kvs"
| "setattr_writes kvs v = []"

fun settings_loop_obj ::
  "'a obj list list \<Rightarrow> string list \<Rightarrow> 'a obj \<Rightarrow> 'a obj list \<Rightarrow> 'a state \<Rightarrow>
     'a obj list \<times> 'a state" where
  "settings_loop_obj [] keys setting settings s = (settings, s)"
| "settings_loop_obj (values # rest) keys setting settings (n, log) =
     (let setting' = setattrs_obj (zip keys values) setting;
          log' = log @ setattr_writes (zip keys values) setting
      in (case deepcopy_obj setting' n of
            (c, n') \<Rightarrow> settings_loop_obj rest keys setting' (settings @ [c]) (n', log')))"

text \<open>
  \<^verbatim>\<open>get_settings\<close> on objects, line by line as \<open>get_settings\<close> above. The method exists on
  \<^verbatim>\<open>Parameters\<close> instances only, so the call on any other object raises AttributeError.
\<close>

function (sequential) get_settings_obj :: "'a obj \<Rightarrow> 'a state \<Rightarrow> error + ('a obj list \<times> 'a state)"
  and collect_obj ::
    "(string \<times> 'a obj) list \<Rightarrow> string list \<Rightarrow> 'a obj list list \<Rightarrow> 'a state \<Rightarrow>
       error + (string list \<times> 'a obj list list \<times> 'a state)"
  and value_list_obj :: "string \<Rightarrow> 'a obj \<Rightarrow> 'a state \<Rightarrow> error + ('a obj list option \<times> 'a state)"
  and expand_each_obj :: "'a obj list \<Rightarrow> 'a state \<Rightarrow> error + ('a obj list \<times> 'a state)" where
  "get_settings_obj (PObj i fs) s =
     (case collect_obj fs [] [] s of
        Inl e \<Rightarrow> Inl e
      | Inr (keys, value_lists, (n1, log)) \<Rightarrow>
          (case deepcopy_obj (PObj i fs) n1 of
             (setting, n2) \<Rightarrow>
               Inr (settings_loop_obj (product_pools value_lists) keys setting [] (n2, log))))"
| "get_settings_obj (Atom x) s = Inl AttributeError"
| "get_settings_obj (Mutable i x) s = Inl AttributeError"
| "get_settings_obj (SObj i vs) s = Inl AttributeError"
| "collect_obj [] keys value_lists s = Inr (keys, value_lists, s)"
| "collect_obj ((k, v) # items) keys value_lists s =
     (case value_list_obj k v s of
        Inl e \<Rightarrow> Inl e
      | Inr (None, s') \<Rightarrow> collect_obj items keys value_lists s'
      | Inr (Some vl, s') \<Rightarrow> collect_obj items (keys @ [k]) (value_lists @ [vl]) s')"
| "value_list_obj k (PObj i fs) s =
     (case get_settings_obj (PObj i fs) s of
        Inl e \<Rightarrow> Inl e
      | Inr (r, s') \<Rightarrow> Inr (Some r, s'))"
| "value_list_obj k (SObj i vs) s =
     (if length vs = 0 then Inl (ValueError (''Empty settings list for '' @ k))
      else if is_PObj (hd vs) then
        (case expand_each_obj vs s of
           Inl e \<Rightarrow> Inl e
         | Inr (r, s') \<Rightarrow> Inr (Some r, s'))
      else Inr (Some vs, s))"
| "value_list_obj k (Atom x) s = Inr (None, s)"
| "value_list_obj k (Mutable i x) s = Inr (None, s)"
| "expand_each_obj [] s = Inr ([], s)"
| "expand_each_obj (v # vs) s =
     (case get_settings_obj v s of
        Inl e \<Rightarrow> Inl e
      | Inr (r, s') \<Rightarrow>
          (case expand_each_obj vs s' of
             Inl e \<Rightarrow> Inl e
           | Inr (r', s'') \<Rightarrow> Inr (r @ r', s'')))"
  by pat_completeness auto

termination
  by (relation "measure (\<lambda>x. case x of
        Inl (Inl (v, s)) \<Rightarrow> 2 * size v
      | Inl (Inr (items, keys, value_lists, s)) \<Rightarrow> 2 * size_list (size_prod (\<lambda>x. 0) size) items
      | Inr (Inl (k, v, s)) \<Rightarrow> 2 * size v + 1
      | Inr (Inr (vs, s)) \<Rightarrow> 2 * size_list size vs)") auto

text \<open>
  What a tree \<open>t\<close> looks like after \<^verbatim>\<open>setattr(o, k, v)\<close> on the instance \<open>o\<close> with identity \<open>j\<close>:
  every occurrence of that instance in \<open>t\<close> has the new value of its field.
\<close>

fun mutate :: "nat \<Rightarrow> string \<Rightarrow> 'a obj \<Rightarrow> 'a obj \<Rightarrow> 'a obj"
  and mutate_fields :: "nat \<Rightarrow> string \<Rightarrow> 'a obj \<Rightarrow> (string \<times> 'a obj) list \<Rightarrow> (string \<times> 'a obj) list"
  and mutate_list :: "nat \<Rightarrow> string \<Rightarrow> 'a obj \<Rightarrow> 'a obj list \<Rightarrow> 'a obj list" where
  "mutate j k v (Atom x) = Atom x"
| "mutate j k v (Mutable i x) = Mutable i x"
| "mutate j k v (PObj i fs) =
     (if i = j then PObj i (setitem k v (mutate_fields j k v fs))
      else PObj i (mutate_fields j k v fs))"
| "mutate j k v (SObj i vs) = SObj i (mutate_list j k v vs)"
| "mutate_fields j k v [] = []"
| "mutate_fields j k v ((k', v') # fs) = (k', mutate j k v v') # mutate_fields j k v fs"
| "mutate_list j k v [] = []"
| "mutate_list j k v (v' # vs) = mutate j k v v' # mutate_list j k v vs"

text \<open>What a tree looks like after the assignments of a log, in their order.\<close>

fun after :: "'a effect list \<Rightarrow> 'a obj \<Rightarrow> 'a obj" where
  "after [] t = t"
| "after ((j, k, v) # ws) t = after ws (mutate j k v t)"

text \<open>
  A state extends another when the counter has not gone back, the log has only grown, and
  every new assignment is to an object made in between. Every call extends its state, so
  every assignment of a call is to an object that the call itself has made.
\<close>

definition extends :: "'a state \<Rightarrow> 'a state \<Rightarrow> bool" where
  "extends s s' \<longleftrightarrow>
     fst s \<le> fst s' \<and> (\<exists>ws. snd s' = snd s @ ws \<and> (\<forall>w \<in> set ws. fst s \<le> fst w \<and> fst w < fst s'))"

section \<open>What the round trip is compared with\<close>

text \<open>
  The flattened form of a nested mapping written without an accumulator: a leaf under \<open>k\<close>
  gives the key \<open>k\<close>, a mapping under \<open>k\<close> gives its own flattened keys, each after \<open>k\<close> and
  a dot.
\<close>

fun flat :: "'a dict \<Rightarrow> 'a dict"
  and flat_value :: "string \<Rightarrow> 'a nested \<Rightarrow> 'a dict" where
  "flat [] = []"
| "flat ((k, v) # d) = flat_value k v @ flat d"
| "flat_value k (Leaf x) = [(k, Leaf x)]"
| "flat_value k (Dict d) = map (\<lambda>(key, w). (k @ ''.'' @ key, w)) (flat d)"

text \<open>The entries of \<open>e\<close> with \<open>q\<close> put before every key.\<close>

definition prefixed :: "string \<Rightarrow> 'a dict \<Rightarrow> 'a dict" where
  "prefixed q e = map (\<lambda>(key, w). (q @ key, w)) e"

text \<open>
  The nested mappings that survive the round trip: at every level the keys are distinct (as
  in any dictionary) and hold no dot, and no value is an empty mapping.
\<close>

fun dotfree_items :: "'a dict \<Rightarrow> bool"
  and dotfree_value :: "'a nested \<Rightarrow> bool" where
  "dotfree_items [] = True"
| "dotfree_items ((k, v) # d) =
     (CHR ''.'' \<notin> set k \<and> k \<notin> set (map fst d) \<and> dotfree_value v \<and> dotfree_items d)"
| "dotfree_value (Leaf x) = True"
| "dotfree_value (Dict d) = (d \<noteq> [] \<and> dotfree_items d)"

fun is_Dict :: "'a nested \<Rightarrow> bool" where
  "is_Dict (Dict d) = True"
| "is_Dict (Leaf x) = False"

text \<open>
  What the store holds at an address, read as a nested mapping whose leaves are addresses:
  a leaf is the object at that very address, and a mapping is a dict with the same keys in
  the same order, each entry holding its value. With the bound \<open>lo\<close>, every dict that is
  read has an address from \<open>lo\<close> on.
\<close>

fun stored :: "nat \<Rightarrow> 'a store \<Rightarrow> nat \<Rightarrow> nat nested \<Rightarrow> bool"
  and stored_items :: "nat \<Rightarrow> 'a store \<Rightarrow> (string \<times> nat) list \<Rightarrow> nat dict \<Rightarrow> bool" where
  "stored lo h a (Leaf b) = (a = b)"
| "stored lo h a (Dict d) =
     (lo \<le> a \<and> (case cell_at h a of Some (CDict es) \<Rightarrow> stored_items lo h es d | _ \<Rightarrow> False))"
| "stored_items lo h [] [] = True"
| "stored_items lo h ((k, a) # es) ((k', v) # d) = (k = k' \<and> stored lo h a v \<and> stored_items lo h es d)"
| "stored_items lo h [] (x # d) = False"
| "stored_items lo h (e # es) [] = False"

text \<open>The entries of a flattened mapping whose values are leaves, each with its address.\<close>

fun leaf_refs :: "nat dict \<Rightarrow> (string \<times> nat) list" where
  "leaf_refs [] = []"
| "leaf_refs ((k, Leaf a) # fl) = (k, a) # leaf_refs fl"
| "leaf_refs ((k, Dict d) # fl) = leaf_refs fl"

text \<open>
  The key \<open>key\<close> below the path \<open>ps\<close>, and the dict \<open>out\<close> that the path \<open>ps\<close> leads to from the
  dict at address \<open>a\<close>, through dicts of growing addresses.
\<close>

fun under_path :: "string list \<Rightarrow> string \<Rightarrow> string" where
  "under_path [] key = key"
| "under_path (k # ps) key = k @ ''.'' @ under_path ps key"

fun path :: "'a store \<Rightarrow> nat \<Rightarrow> string list \<Rightarrow> nat \<Rightarrow> bool" where
  "path h a [] out = (a = out)"
| "path h a (k # ps) out =
     (a < out \<and> (case cell_at h a of
                   Some (CDict es) \<Rightarrow> (case getitem es k of Some b \<Rightarrow> path h b ps out | None \<Rightarrow> False)
                 | _ \<Rightarrow> False))"

text \<open>
  What the nesting of one key with the value \<open>v\<close> can do to a store: no cell goes away or
  changes its kind, a \<open>CLeaf\<close> stays as it is, and an entry of a dict or an attribute of an
  instance keeps its value or holds \<open>v\<close>.
\<close>

definition evolves :: "nat \<Rightarrow> 'a store \<Rightarrow> 'a store \<Rightarrow> bool" where
  "evolves v h h' \<longleftrightarrow>
     length h \<le> length h' \<and>
     (\<forall>a x. cell_at h a = Some (CLeaf x) \<longrightarrow> cell_at h' a = Some (CLeaf x)) \<and>
     (\<forall>a es. cell_at h a = Some (CDict es) \<longrightarrow>
        (\<exists>es'. cell_at h' a = Some (CDict es') \<and>
           (\<forall>k b. getitem es k = Some b \<longrightarrow> getitem es' k = Some b \<or> getitem es' k = Some v))) \<and>
     (\<forall>a es. cell_at h a = Some (CInst es) \<longrightarrow>
        (\<exists>es'. cell_at h' a = Some (CInst es') \<and>
           (\<forall>k b. getitem es k = Some b \<longrightarrow> getitem es' k = Some b \<or> getitem es' k = Some v)))"

text \<open>
  A store is well formed when every address held in a dict or in an instance is the address
  of a cell; \<open>unref res h\<close> says that no dict and no instance of \<open>h\<close> holds the address \<open>res\<close>.
\<close>

fun refs_below :: "nat \<Rightarrow> 'a cell \<Rightarrow> bool" where
  "refs_below n (CLeaf x) = True"
| "refs_below n (CDict es) = list_all (\<lambda>(k, b). b < n) es"
| "refs_below n (CInst es) = list_all (\<lambda>(k, b). b < n) es"

definition wf_store :: "'a store \<Rightarrow> bool" where
  "wf_store h = list_all (refs_below (length h)) h"

definition unref :: "nat \<Rightarrow> 'a store \<Rightarrow> bool" where
  "unref res h \<longleftrightarrow>
     (\<forall>a es. cell_at h a = Some (CDict es) \<or> cell_at h a = Some (CInst es) \<longrightarrow> res \<notin> snd ` set es)"

section \<open>What the expansion is compared with\<close>

text \<open>
  The varying fields of a tree, in field order, each with its candidate list: the fields for
  which the first loop appends to \<^verbatim>\<open>keys\<close> and \<^verbatim>\<open>value_lists\<close>.
\<close>

fun candidates :: "'a fields \<Rightarrow> (string \<times> 'a val list) list" where
  "candidates [] = []"
| "candidates ((k, v) # items) =
     (case value_list k v of
        Inr (Some vl) \<Rightarrow> (k, vl) # candidates items
      | _ \<Rightarrow> candidates items)"

text \<open>
  The tree \<open>self\<close> with the value of every field named in \<open>kvs\<close> replaced and every other
  field as it is.
\<close>

definition assign :: "(string \<times> 'v) list \<Rightarrow> (string \<times> 'v) list \<Rightarrow> (string \<times> 'v) list" where
  "assign kvs self = map (\<lambda>(k, v). (k, case map_of kvs k of None \<Rightarrow> v | Some w \<Rightarrow> w)) self"

text \<open>
  The names of the fields that hold an empty settings list, in the order the expansion
  reaches them: the fields of the tree, of the trees its fields hold, and of the trees in
  the settings lists that the expansion recurses into.
\<close>

fun empty_fields :: "'a fields \<Rightarrow> string list"
  and empty_val :: "string \<Rightarrow> 'a val \<Rightarrow> string list"
  and empty_each :: "'a val list \<Rightarrow> string list" where
  "empty_fields [] = []"
| "empty_fields ((k, v) # items) = empty_val k v @ empty_fields items"
| "empty_val k (Value x) = []"
| "empty_val k (Parameters fs) = empty_fields fs"
| "empty_val k (Settings vs) =
     (if vs = [] then [k] else if is_Parameters (hd vs) then empty_each vs else [])"
| "empty_each [] = []"
| "empty_each (Parameters fs # vs) = empty_fields fs @ empty_each vs"
| "empty_each (v # vs) = empty_each vs"

text \<open>
  A tree is uniform when every settings list that starts with a \<^verbatim>\<open>Parameters\<close> instance
  holds \<^verbatim>\<open>Parameters\<close> instances only, in the tree and in every tree the expansion
  recurses into.
\<close>

fun uniform_fields :: "'a fields \<Rightarrow> bool"
  and uniform_val :: "'a val \<Rightarrow> bool"
  and uniform_each :: "'a val list \<Rightarrow> bool" where
  "uniform_fields [] = True"
| "uniform_fields ((k, v) # items) = (uniform_val v \<and> uniform_fields items)"
| "uniform_val (Value x) = True"
| "uniform_val (Parameters fs) = uniform_fields fs"
| "uniform_val (Settings vs) =
     (if vs = [] then True else if is_Parameters (hd vs) then uniform_each vs else True)"
| "uniform_each [] = True"
| "uniform_each (Parameters fs # vs) = (uniform_fields fs \<and> uniform_each vs)"
| "uniform_each (v # vs) = False"

section \<open>Properties\<close>

text \<open>
  The equations of the functions below have a variable pattern, so they are unfolded by
  hand where a proof needs them.
\<close>

declare nest_dict_rec.simps [simp del]
declare split_all.simps [simp del]
declare get_settings.simps [simp del]
declare get_settings_obj.simps(1) [simp del]

subsection \<open>The candidate list of a settings-list field\<close>

lemma expand_each_concat:
  "list_all2 (\<lambda>v out. \<exists>fs. v = Parameters fs \<and> get_settings fs = Inr out) vs outs \<Longrightarrow>
     expand_each vs = Inr (concat outs)"
proof (induction vs arbitrary: outs)
  case Nil
  then show ?case by simp
next
  case (Cons v vs)
  from Cons.prems obtain out outs' fs where
    o: "outs = out # outs'" "v = Parameters fs" "get_settings fs = Inr out"
    and r: "list_all2 (\<lambda>v out. \<exists>fs. v = Parameters fs \<and> get_settings fs = Inr out) vs outs'"
    by (auto simp: list_all2_Cons1)
  from Cons.IH[OF r] o show ?case by simp
qed

text \<open>
  Claim C6. For a non-empty settings list \<open>vs\<close>: when every element is a \<open>Parameters\<close>
  instance, with \<open>outs\<close> the expansions of the elements in list order, the candidate list of
  the field is \<open>concat outs\<close>; when the list is leaf-valued (its first element is not a
  \<open>Parameters\<close> instance) the candidate list is \<open>vs\<close> itself.
\<close>

theorem settings_candidate_list:
  assumes "vs \<noteq> []"
  shows "(list_all2 (\<lambda>v out. \<exists>fs. v = Parameters fs \<and> get_settings fs = Inr out) vs outs
            \<longrightarrow> value_list k (Settings vs) = Inr (Some (concat outs)))
       \<and> (\<not> is_Parameters (hd vs) \<longrightarrow> value_list k (Settings vs) = Inr (Some vs))"
proof (intro conjI impI)
  assume a: "list_all2 (\<lambda>v out. \<exists>fs. v = Parameters fs \<and> get_settings fs = Inr out) vs outs"
  then have e: "expand_each vs = Inr (concat outs)"
    by (rule expand_each_concat)
  from a assms have "is_Parameters (hd vs)"
    by (cases vs) (auto simp: list_all2_Cons1)
  with e assms show "value_list k (Settings vs) = Inr (Some (concat outs))" by simp
next
  assume "\<not> is_Parameters (hd vs)"
  with assms show "value_list k (Settings vs) = Inr (Some vs)" by simp
qed

theorem settings_candidate_list_witness:
  "[Parameters [(''x'', Value (1::nat))], Parameters [(''x'', Value 2)]] \<noteq> []
   \<and> value_list ''opt'' (Settings [Parameters [(''x'', Value (1::nat))], Parameters [(''x'', Value 2)]])
       = Inr (Some [Parameters [(''x'', Value 1)], Parameters [(''x'', Value 2)]])
   \<and> value_list ''lr'' (Settings [Value (1::nat), Value 2]) = Inr (Some [Value 1, Value 2])"
proof -
  let ?p1 = "Parameters [(''x'', Value (1::nat))]"
  let ?p2 = "Parameters [(''x'', Value (2::nat))]"
  have g1: "get_settings [(''x'', Value (1::nat))] = Inr [?p1]" by code_simp
  have g2: "get_settings [(''x'', Value (2::nat))] = Inr [?p2]" by code_simp
  have a: "list_all2 (\<lambda>v out. \<exists>fs. v = Parameters fs \<and> get_settings fs = Inr out)
             [?p1, ?p2] [[?p1], [?p2]]"
    using g1 g2 by simp
  have n1: "[?p1, ?p2] \<noteq> []" by simp
  have n2: "[Value (1::nat), Value 2] \<noteq> []" by simp
  have h: "\<not> is_Parameters (hd [Value (1::nat), Value 2])" by simp
  from settings_candidate_list[OF n1, of "[[?p1], [?p2]]" "''opt''"] a
    settings_candidate_list[OF n2, of "[]" "''lr''"] h
  show ?thesis by simp
qed

lemma expand_each_fail:
  "list_all2 (\<lambda>u out. \<exists>fs. u = Parameters fs \<and> get_settings fs = Inr out) pre outs \<Longrightarrow>
   (\<exists>fs. u = Parameters fs \<and> get_settings fs = Inl e) \<or> (\<not> is_Parameters u \<and> e = AttributeError) \<Longrightarrow>
   expand_each (pre @ u # post) = Inl e"
proof (induction pre arbitrary: outs)
  case Nil
  from Nil.prems(2) show ?case
  proof
    assume "\<exists>fs. u = Parameters fs \<and> get_settings fs = Inl e"
    then show ?thesis by auto
  next
    assume "\<not> is_Parameters u \<and> e = AttributeError"
    then show ?thesis by (cases u) auto
  qed
next
  case (Cons w pre)
  from Cons.prems(1) obtain out outs' fs where w: "w = Parameters fs" "get_settings fs = Inr out"
    and r: "list_all2 (\<lambda>u out. \<exists>fs. u = Parameters fs \<and> get_settings fs = Inr out) pre outs'"
    by (auto simp: list_all2_Cons1)
  from Cons.IH[OF r Cons.prems(2)] w show ?case by simp
qed

text \<open>
  Claim C10. Which branch a non-empty settings list takes depends on its first element
  alone. When the first element is not a \<open>Parameters\<close> instance the list is the candidate
  list as it is, whatever the other elements are. When it is one, \<open>get_settings\<close> is called
  on every element in turn: if every call returns, the candidate list is the concatenation
  of the results; the first element that is not a \<open>Parameters\<close> instance makes the whole
  call fail with AttributeError, and the first element whose own expansion fails makes it
  fail with that error.
\<close>

theorem settings_branch_by_first:
  "(\<not> is_Parameters v \<longrightarrow> value_list k (Settings (v # vs)) = Inr (Some (v # vs)))
   \<and> (is_Parameters v \<longrightarrow>
        (list_all2 (\<lambda>u out. \<exists>fs. u = Parameters fs \<and> get_settings fs = Inr out) (v # vs) outs \<longrightarrow>
           value_list k (Settings (v # vs)) = Inr (Some (concat outs)))
      \<and> (v # vs = pre @ u # post \<and>
         list_all2 (\<lambda>u out. \<exists>fs. u = Parameters fs \<and> get_settings fs = Inr out) pre outs' \<longrightarrow>
           (\<not> is_Parameters u \<longrightarrow> value_list k (Settings (v # vs)) = Inl AttributeError)
         \<and> (\<forall>fs e. u = Parameters fs \<and> get_settings fs = Inl e \<longrightarrow>
               value_list k (Settings (v # vs)) = Inl e)))"
proof (intro conjI impI allI)
  assume "\<not> is_Parameters v"
  then show "value_list k (Settings (v # vs)) = Inr (Some (v # vs))" by simp
next
  assume p: "is_Parameters v"
    and a: "list_all2 (\<lambda>u out. \<exists>fs. u = Parameters fs \<and> get_settings fs = Inr out) (v # vs) outs"
  from a have "expand_each (v # vs) = Inr (concat outs)" by (rule expand_each_concat)
  with p show "value_list k (Settings (v # vs)) = Inr (Some (concat outs))" by simp
next
  assume p: "is_Parameters v"
    and a: "v # vs = pre @ u # post \<and>
         list_all2 (\<lambda>u out. \<exists>fs. u = Parameters fs \<and> get_settings fs = Inr out) pre outs'"
    and u: "\<not> is_Parameters u"
  from a u have "expand_each (pre @ u # post) = Inl AttributeError"
    by (intro expand_each_fail[of pre outs']) auto
  with a have "expand_each (v # vs) = Inl AttributeError" by simp
  with p show "value_list k (Settings (v # vs)) = Inl AttributeError" by simp
next
  fix fs e
  assume p: "is_Parameters v"
    and a: "v # vs = pre @ u # post \<and>
         list_all2 (\<lambda>u out. \<exists>fs. u = Parameters fs \<and> get_settings fs = Inr out) pre outs'"
    and u: "u = Parameters fs \<and> get_settings fs = Inl e"
  from a u have "expand_each (pre @ u # post) = Inl e"
    by (intro expand_each_fail[of pre outs']) auto
  with a have "expand_each (v # vs) = Inl e" by simp
  with p show "value_list k (Settings (v # vs)) = Inl e" by simp
qed

theorem settings_branch_by_first_witness:
  "value_list ''f'' (Settings [Value (5::nat), Parameters [(''x'', Value 1)]])
     = Inr (Some [Value 5, Parameters [(''x'', Value 1)]])
   \<and> value_list ''f'' (Settings [Parameters [(''x'', Value (1::nat))], Value 5])
     = Inl AttributeError
   \<and> value_list ''f'' (Settings [Parameters [(''x'', Value (1::nat))], Parameters [(''c'', Settings [])]])
     = Inl (ValueError ''Empty settings list for c'')
   \<and> value_list ''f'' (Settings [Parameters [(''x'', Settings [Value (1::nat), Value 2])],
                                 Parameters [(''y'', Value 3)]])
     = Inr (Some [Parameters [(''x'', Value 1)], Parameters [(''x'', Value 2)],
                  Parameters [(''y'', Value 3)]])"
proof -
  let ?p = "Parameters [(''x'', Value (1::nat))]"
  let ?q = "Parameters [(''x'', Settings [Value (1::nat), Value 2])]"
  let ?r = "Parameters [(''y'', Value (3::nat))]"
  let ?c = "Parameters [(''c'', Settings []) :: string \<times> nat val]"
  have gp: "get_settings [(''x'', Value (1::nat))] = Inr [?p]" by code_simp
  have gq: "get_settings [(''x'', Settings [Value (1::nat), Value 2])]
              = Inr [Parameters [(''x'', Value 1)], Parameters [(''x'', Value 2)]]" by code_simp
  have gr: "get_settings [(''y'', Value (3::nat))] = Inr [?r]" by code_simp
  have gc: "get_settings [(''c'', Settings []) :: string \<times> nat val]
              = Inl (ValueError ''Empty settings list for c'')" by code_simp
  have pre: "list_all2 (\<lambda>u out. \<exists>fs. u = Parameters fs \<and> get_settings fs = Inr out) [?p] [[?p]]"
    using gp by simp
  have all: "list_all2 (\<lambda>u out. \<exists>fs. u = Parameters fs \<and> get_settings fs = Inr out) [?q, ?r]
               [[Parameters [(''x'', Value 1)], Parameters [(''x'', Value 2)]], [?r]]"
    using gq gr by simp
  note t1 = settings_branch_by_first[of "Value 5" "''f''" "[?p]" "[]" "[]" "Value 5" "[]" "[]"]
  note t2 = settings_branch_by_first[of ?p "''f''" "[Value 5]" "[]" "[?p]" "Value 5" "[]" "[[?p]]"]
  note t3 = settings_branch_by_first[of ?p "''f''" "[?c]" "[]" "[?p]" ?c "[]" "[[?p]]"]
  note t4 = settings_branch_by_first[of ?q "''f''" "[?r]"
      "[[Parameters [(''x'', Value 1)], Parameters [(''x'', Value 2)]], [?r]]" "[]" ?q "[]" "[]"]
  from t1 have a1: "value_list ''f'' (Settings [Value 5, ?p]) = Inr (Some [Value 5, ?p])" by simp
  from t2 pre have a2: "value_list ''f'' (Settings [?p, Value 5]) = Inl AttributeError" by simp
  from t3 pre gc have a3: "value_list ''f'' (Settings [?p, ?c]) = Inl (ValueError ''Empty settings list for c'')"
    by simp
  from t4 all have a4: "value_list ''f'' (Settings [?q, ?r])
      = Inr (Some [Parameters [(''x'', Value 1)], Parameters [(''x'', Value 2)], ?r])" by simp
  from a1 a2 a3 a4 show ?thesis by simp
qed

subsection \<open>to_flattened_dict\<close>

text \<open>
  Claim C3, at an input where the code departs from it. The flattened key
  \<^verbatim>\<open>a.my_grid_search\<close> ends with the characters \<^verbatim>\<open>grid_search\<close>, but its last segment is
  \<^verbatim>\<open>my_grid_search\<close>; \<open>to_flattened_dict\<close> rewrites it all the same, and the name of the
  field is lost.
\<close>

theorem to_flattened_dict_endswith:
  "to_flattened_dict id [(''a'', Dict [(''my_grid_search'', Leaf (1::nat))])] ''.''
     = Inr [(''a'', Dict [(''grid_search'', Leaf 1)])]"
  by code_simp

text \<open>The example of the claim comes out as the claim says.\<close>

lemma to_flattened_dict_grid_search:
  "to_flattened_dict id [(''a'', Dict [(''grid_search'', Leaf [1::nat, 2, 3])])] ''.''
     = Inr [(''a'', Dict [(''grid_search'', Leaf [1, 2, 3])])]"
  by code_simp

text \<open>
  Claim C8, at an input where the code departs from it. \<open>to_flattened_dict\<close> joins the path
  with \<^verbatim>\<open>'.'\<close> whatever separator it is given, where \<open>flatten_dict\<close> with that separator
  joins it with the separator.
\<close>

theorem to_flattened_dict_separator:
  "to_flattened_dict id [(''a'', Dict [(''b'', Leaf (1::nat))])] ''/'' = Inr [(''a.b'', Leaf 1)]
   \<and> flatten_dict [(''a'', Dict [(''b'', Leaf (1::nat))])] ''/'' [] = [(''a/b'', Leaf 1)]"
  by code_simp

subsection \<open>The product of the candidate lists\<close>

text \<open>
  The library's left-to-right construction of the product gives the tuples of
  \<open>product_lists\<close>, in the same order.
\<close>

lemma fold_product_step:
  "fold product_step pools res = concat (map (\<lambda>x. map ((@) x) (product_lists pools)) res)"
proof (induction pools arbitrary: res)
  case Nil
  show ?case by (induction res) auto
next
  case (Cons p ps)
  have "fold product_step (p # ps) res = fold product_step ps (product_step p res)" by simp
  also have "\<dots> = concat (map (\<lambda>x. map ((@) x) (product_lists ps)) (product_step p res))"
    by (rule Cons.IH)
  also have "\<dots> = concat (map (\<lambda>x. map ((@) x) (product_lists (p # ps))) res)"
  proof (induction res)
    case Nil
    show ?case by (simp add: product_step_def)
  next
    case (Cons x xs)
    have "concat (map (\<lambda>x'. map ((@) x') (product_lists ps)) (map (\<lambda>y. x @ [y]) p))
          = map ((@) x) (concat (map (\<lambda>y. map ((#) y) (product_lists ps)) p))"
      by (induction p) auto
    with Cons show ?case by (simp add: product_step_def)
  qed
  finally show ?case .
qed

lemma product_pools_eq: "product_pools pools = product_lists pools"
proof -
  have "(@) [] = (\<lambda>x::'a list. x)" by auto
  then show ?thesis by (simp add: product_pools_def fold_product_step)
qed


subsection \<open>The two loops of get_settings\<close>

lemma collect_acc:
  "collect items keys vls = Inr (ks, cs) \<Longrightarrow>
     ks = keys @ map fst (candidates items) \<and> cs = vls @ map snd (candidates items)"
proof (induction items arbitrary: keys vls)
  case Nil
  then show ?case by simp
next
  case (Cons kv items)
  obtain k v where kv: "kv = (k, v)" by (cases kv)
  show ?case
  proof (cases "value_list k v")
    case (Inl e)
    with Cons.prems kv show ?thesis by simp
  next
    case (Inr o1)
    show ?thesis
    proof (cases o1)
      case None
      with Inr Cons.prems kv have "collect items keys vls = Inr (ks, cs)" by simp
      from Cons.IH[OF this] Inr None kv show ?thesis by simp
    next
      case (Some vl)
      with Inr Cons.prems kv have "collect items (keys @ [k]) (vls @ [vl]) = Inr (ks, cs)" by simp
      from Cons.IH[OF this] Inr Some kv show ?thesis by simp
    qed
  qed
qed

lemma candidates_keys_subseq: "k \<in> set (map fst (candidates items)) \<Longrightarrow> k \<in> set (map fst items)"
proof (induction items)
  case Nil
  then show ?case by simp
next
  case (Cons kv items)
  obtain k' v where kv: "kv = (k', v)" by (cases kv)
  from Cons kv show ?case
    by (cases "value_list k' v") (auto split: option.splits)
qed

lemma candidates_keys_distinct:
  "distinct (map fst items) \<Longrightarrow> distinct (map fst (candidates items))"
proof (induction items)
  case Nil
  show ?case by simp
next
  case (Cons kv items)
  obtain k v where kv: "kv = (k, v)" by (cases kv)
  from Cons.prems kv have "k \<notin> set (map fst items)" by simp
  with candidates_keys_subseq[of k items] have "k \<notin> set (map fst (candidates items))" by blast
  with Cons kv show ?case
    by (cases "value_list k v") (auto split: option.splits)
qed


lemma setitem_present:
  "distinct (map fst s) \<Longrightarrow> k \<in> set (map fst s) \<Longrightarrow>
     setitem k v s = map (\<lambda>(k', v'). (k', if k' = k then v else v')) s"
proof (induction s)
  case Nil
  then show ?case by simp
next
  case (Cons a s)
  obtain k' v' where a: "a = (k', v')" by (cases a)
  show ?case
  proof (cases "k' = k")
    case True
    with Cons.prems a have "k \<notin> set (map fst s)" by simp
    then have "map (\<lambda>(k', v'). (k', if k' = k then v else v')) s = s"
      by (induction s) auto
    with True a show ?thesis by simp
  next
    case False
    with Cons a show ?thesis by simp
  qed
qed

lemma map_fst_assign: "map fst (assign kvs s) = map fst s"
  by (simp add: assign_def comp_def case_prod_unfold)

lemma setattrs_assign:
  "distinct (map fst s) \<Longrightarrow> distinct (map fst kvs) \<Longrightarrow> set (map fst kvs) \<subseteq> set (map fst s) \<Longrightarrow>
     setattrs kvs s = assign kvs s"
proof (induction kvs arbitrary: s)
  case Nil
  show ?case by (simp add: assign_def)
next
  case (Cons a kvs)
  obtain k v where a: "a = (k, v)" by (cases a)
  from Cons.prems a have kin: "k \<in> set (map fst s)" and knot: "k \<notin> set (map fst kvs)" by auto
  have si: "setitem k v s = map (\<lambda>(k', v'). (k', if k' = k then v else v')) s"
    using Cons.prems(1) kin by (rule setitem_present)
  have mf: "map fst (setitem k v s) = map fst s"
    by (simp add: si comp_def case_prod_unfold)
  have "setattrs kvs (setitem k v s) = assign kvs (setitem k v s)"
    using Cons.prems a by (intro Cons.IH) (auto simp: mf)
  also have "\<dots> = assign ((k, v) # kvs) s"
  proof -
    from knot have "map_of kvs k = None" by (simp add: map_of_eq_None_iff)
    then show ?thesis
      by (auto simp: si assign_def split: option.splits)
  qed
  finally show ?case using a by simp
qed

lemma assign_assign:
  "length vs1 = length keys \<Longrightarrow> length vs2 = length keys \<Longrightarrow>
     assign (zip keys vs2) (assign (zip keys vs1) s) = assign (zip keys vs2) s"
proof -
  assume l: "length vs1 = length keys" "length vs2 = length keys"
  have "\<And>k. map_of (zip keys vs2) k = None \<Longrightarrow> map_of (zip keys vs1) k = None"
    using l by (simp add: map_of_zip_is_None)
  then show ?thesis
    by (auto simp: assign_def split: option.splits)
qed

lemma settings_loop_assign:
  assumes d: "distinct (map fst self)" and dk: "distinct keys"
    and sub: "set keys \<subseteq> set (map fst self)"
  shows "\<forall>t \<in> set tuples. length t = length keys \<Longrightarrow>
         map fst setting = map fst self \<Longrightarrow>
         (\<forall>values. length values = length keys \<longrightarrow>
            assign (zip keys values) setting = assign (zip keys values) self) \<Longrightarrow>
         settings_loop tuples keys setting acc =
           acc @ map (\<lambda>values. Parameters (assign (zip keys values) self)) tuples"
proof (induction tuples arbitrary: setting acc)
  case Nil
  show ?case by simp
next
  case (Cons t tuples)
  from Cons.prems(1) have lt: "length t = length keys" by simp
  have kz: "map fst (zip keys t) = keys" using lt by simp
  have "setattrs (zip keys t) setting = assign (zip keys t) setting"
    using d dk sub Cons.prems(2) kz by (intro setattrs_assign) auto
  also have "\<dots> = assign (zip keys t) self" using Cons.prems(3) lt by blast
  finally have st: "setattrs (zip keys t) setting = assign (zip keys t) self" .
  have inv: "\<forall>values. length values = length keys \<longrightarrow>
       assign (zip keys values) (assign (zip keys t) self) = assign (zip keys values) self"
    using lt by (simp add: assign_assign)
  have "settings_loop tuples keys (assign (zip keys t) self) (acc @ [Parameters (assign (zip keys t) self)])
        = (acc @ [Parameters (assign (zip keys t) self)]) @
           map (\<lambda>values. Parameters (assign (zip keys values) self)) tuples"
    using Cons.prems(1) inv by (intro Cons.IH) (auto simp: map_fst_assign)
  then show ?case by (simp add: st deepcopy_def)
qed

lemma get_settings_Inr:
  "get_settings self = Inr outs \<Longrightarrow>
     outs = settings_loop (product_lists (map snd (candidates self)))
              (map fst (candidates self)) self []"
proof -
  assume g: "get_settings self = Inr outs"
  then obtain keys vls where c: "collect self [] [] = Inr (keys, vls)"
    and o: "outs = settings_loop (product_pools vls) keys (deepcopy self) []"
    by (auto simp: get_settings.simps split: sum.splits)
  from collect_acc[OF c] o show ?thesis by (simp add: product_pools_eq deepcopy_def)
qed

lemma get_settings_map:
  assumes "distinct (map fst self)" and "get_settings self = Inr outs"
  shows "outs = map (\<lambda>values. Parameters (assign (zip (map fst (candidates self)) values) self))
                  (product_lists (map snd (candidates self)))"
proof -
  let ?keys = "map fst (candidates self)"
  let ?pools = "map snd (candidates self)"
  have dk: "distinct ?keys" using assms(1) by (rule candidates_keys_distinct)
  have sub: "set ?keys \<subseteq> set (map fst self)" using candidates_keys_subseq by blast
  have len: "\<forall>t \<in> set (product_lists ?pools). length t = length ?keys"
    by (auto dest: in_set_product_lists_length)
  have "settings_loop (product_lists ?pools) ?keys self [] =
        [] @ map (\<lambda>values. Parameters (assign (zip ?keys values) self)) (product_lists ?pools)"
    using assms(1) dk sub len by (intro settings_loop_assign) auto
  with get_settings_Inr[OF assms(2)] show ?thesis by simp
qed



subsection \<open>Empty settings lists\<close>

lemma hd_append_if: "hd (xs @ ys) = (if xs = [] then hd ys else hd xs)"
  by (cases xs) auto

lemma uniform_result:
  fixes fs :: "'a fields" and v :: "'a val" and vs :: "'a val list"
  shows "uniform_fields fs \<longrightarrow> (\<forall>keys vls.
           if empty_fields fs = [] then (\<exists>r. collect fs keys vls = Inr r)
           else collect fs keys vls = Inl (ValueError (''Empty settings list for '' @ hd (empty_fields fs))))"
    and "uniform_val v \<longrightarrow>
           (if empty_val k v = [] then (\<exists>r. value_list k v = Inr r)
            else value_list k v = Inl (ValueError (''Empty settings list for '' @ hd (empty_val k v))))"
    and "uniform_each vs \<longrightarrow>
           (if empty_each vs = [] then (\<exists>r. expand_each vs = Inr r)
            else expand_each vs = Inl (ValueError (''Empty settings list for '' @ hd (empty_each vs))))"
proof (induction fs and k v and vs rule: empty_fields_empty_val_empty_each.induct)
  case 1
  show ?case by simp
next
  case (2 k v items)
  show ?case
  proof (intro impI allI)
    fix keys vls
    assume u: "uniform_fields ((k, v) # items)"
    then have uv: "uniform_val v" and ui: "uniform_fields items" by simp_all
    show "if empty_fields ((k, v) # items) = [] then \<exists>r. collect ((k, v) # items) keys vls = Inr r
          else collect ((k, v) # items) keys vls =
               Inl (ValueError (''Empty settings list for '' @ hd (empty_fields ((k, v) # items))))"
    proof (cases "empty_val k v = []")
      case False
      with 2(1) uv show ?thesis by (simp add: hd_append_if)
    next
      case True
      with 2(1) uv obtain r where r: "value_list k v = Inr r" by auto
      from 2(2) ui have ih: "\<And>keys vls.
          if empty_fields items = [] then \<exists>r. collect items keys vls = Inr r
          else collect items keys vls =
               Inl (ValueError (''Empty settings list for '' @ hd (empty_fields items)))"
        by blast
      show ?thesis
      proof (cases r)
        case None
        with r True ih[of keys vls] show ?thesis by auto
      next
        case (Some vl)
        with r True ih[of "keys @ [k]" "vls @ [vl]"] show ?thesis by auto
      qed
    qed
  qed
next
  case (3 k x)
  show ?case by simp
next
  case (4 k fs)
  show ?case
  proof
    assume "uniform_val (Parameters fs)"
    then have u: "uniform_fields fs" by simp
    show "if empty_val k (Parameters fs) = [] then \<exists>r. value_list k (Parameters fs) = Inr r
          else value_list k (Parameters fs) =
               Inl (ValueError (''Empty settings list for '' @ hd (empty_val k (Parameters fs))))"
    proof (cases "empty_fields fs = []")
      case True
      with 4 u have "\<exists>r. collect fs [] [] = Inr r" by simp
      then obtain ks cs where "collect fs [] [] = Inr (ks, cs)" by (metis surj_pair)
      with True show ?thesis by (simp add: get_settings.simps)
    next
      case False
      with 4 u have "collect fs [] [] =
          Inl (ValueError (''Empty settings list for '' @ hd (empty_fields fs)))" by auto
      with False show ?thesis by (simp add: get_settings.simps)
    qed
  qed
next
  case (5 k vs)
  show ?case
  proof (cases "vs = []")
    case True
    then show ?thesis by simp
  next
    case False
    show ?thesis
    proof (cases "is_Parameters (hd vs)")
      case True
      with False 5 show ?thesis by (auto split: sum.splits)
    next
      case False
      with \<open>vs \<noteq> []\<close> show ?thesis by simp
    qed
  qed
next
  case 6
  show ?case by simp
next
  case (7 fs vs)
  show ?case
  proof
    assume "uniform_each (Parameters fs # vs)"
    then have u: "uniform_fields fs" and uv: "uniform_each vs" by simp_all
    show "if empty_each (Parameters fs # vs) = [] then \<exists>r. expand_each (Parameters fs # vs) = Inr r
          else expand_each (Parameters fs # vs) =
               Inl (ValueError (''Empty settings list for '' @ hd (empty_each (Parameters fs # vs))))"
    proof (cases "empty_fields fs = []")
      case True
      with 7(1) u have "\<exists>r. collect fs [] [] = Inr r" by simp
      then obtain ks cs where "collect fs [] [] = Inr (ks, cs)" by (metis surj_pair)
      then obtain s where s: "get_settings fs = Inr s" by (simp add: get_settings.simps)
      with True 7(2) uv show ?thesis by (auto split: sum.splits)
    next
      case False
      with 7(1) u have "collect fs [] [] =
          Inl (ValueError (''Empty settings list for '' @ hd (empty_fields fs)))" by auto
      then have "get_settings fs = Inl (ValueError (''Empty settings list for '' @ hd (empty_fields fs)))"
        by (simp add: get_settings.simps)
      with False show ?thesis by (simp add: hd_append_if)
    qed
  qed
qed simp_all


lemma get_settings_Inl: "get_settings fs = Inl e \<longleftrightarrow> collect fs [] [] = Inl e"
  by (auto simp: get_settings.simps split: sum.splits)

lemma empty_fails:
  fixes fs :: "'a fields" and v :: "'a val" and vs :: "'a val list"
  shows "empty_fields fs \<noteq> [] \<longrightarrow> (\<forall>keys vls. \<exists>e. collect fs keys vls = Inl e)"
    and "empty_val k v \<noteq> [] \<longrightarrow> (\<exists>e. value_list k v = Inl e)"
    and "empty_each vs \<noteq> [] \<longrightarrow> (\<exists>e. expand_each vs = Inl e)"
proof (induction fs and k v and vs rule: empty_fields_empty_val_empty_each.induct)
  case 1
  show ?case by simp
next
  case (2 k v items)
  show ?case
  proof (intro impI allI)
    fix keys vls
    assume ne: "empty_fields ((k, v) # items) \<noteq> []"
    show "\<exists>e. collect ((k, v) # items) keys vls = Inl e"
    proof (cases "value_list k v")
      case (Inl e)
      then show ?thesis by simp
    next
      case (Inr r)
      with 2(1) have "empty_val k v = []" by (cases "empty_val k v = []") auto
      with ne have "empty_fields items \<noteq> []" by simp
      with 2(2) have ih: "\<And>keys vls. \<exists>e. collect items keys vls = Inl e" by blast
      show ?thesis
      proof (cases r)
        case None
        with Inr ih[of keys vls] show ?thesis by simp
      next
        case (Some vl)
        with Inr ih[of "keys @ [k]" "vls @ [vl]"] show ?thesis by simp
      qed
    qed
  qed
next
  case (3 k x)
  show ?case by simp
next
  case (4 k fs)
  show ?case
  proof
    assume "empty_val k (Parameters fs) \<noteq> []"
    with 4 obtain e where "collect fs [] [] = Inl e" by auto
    then have "get_settings fs = Inl e" by (simp add: get_settings_Inl)
    then show "\<exists>e. value_list k (Parameters fs) = Inl e" by simp
  qed
next
  case (5 k vs)
  then show ?case by (auto split: sum.splits)
next
  case 6
  show ?case by simp
next
  case (7 fs vs)
  show ?case
  proof
    assume ne: "empty_each (Parameters fs # vs) \<noteq> []"
    show "\<exists>e. expand_each (Parameters fs # vs) = Inl e"
    proof (cases "get_settings fs")
      case (Inl e)
      then show ?thesis by simp
    next
      case (Inr s)
      then obtain r where "collect fs [] [] = Inr r"
        by (auto simp: get_settings.simps split: sum.splits)
      have "empty_fields fs = []"
      proof (rule ccontr)
        assume "empty_fields fs \<noteq> []"
        with 7(1) obtain e where "collect fs [] [] = Inl e" by blast
        with \<open>collect fs [] [] = Inr r\<close> show False by simp
      qed
      with ne 7(2) obtain e where "expand_each vs = Inl e" by auto
      with Inr show ?thesis by simp
    qed
  qed
qed simp_all

lemma error_kind:
  fixes fs :: "'a fields" and v :: "'a val" and vs :: "'a val list"
  shows "\<forall>keys vls e. collect fs keys vls = Inl e \<longrightarrow>
           e = AttributeError \<or> (\<exists>n \<in> set (empty_fields fs). e = ValueError (''Empty settings list for '' @ n))"
    and "\<forall>e. value_list k v = Inl e \<longrightarrow>
           e = AttributeError \<or> (\<exists>n \<in> set (empty_val k v). e = ValueError (''Empty settings list for '' @ n))"
    and "\<forall>e. expand_each vs = Inl e \<longrightarrow>
           e = AttributeError \<or> (\<exists>n \<in> set (empty_each vs). e = ValueError (''Empty settings list for '' @ n))"
proof (induction fs and k v and vs rule: empty_fields_empty_val_empty_each.induct)
  case 1
  show ?case by simp
next
  case (2 k v items)
  show ?case
  proof (intro impI allI)
    fix keys vls e
    assume c: "collect ((k, v) # items) keys vls = Inl e"
    show "e = AttributeError \<or>
          (\<exists>n \<in> set (empty_fields ((k, v) # items)). e = ValueError (''Empty settings list for '' @ n))"
    proof (cases "value_list k v")
      case (Inl e')
      with c have "e' = e" by simp
      with Inl 2(1) show ?thesis by auto
    next
      case (Inr r)
      show ?thesis
      proof (cases r)
        case None
        with Inr c have "collect items keys vls = Inl e" by simp
        with 2(2) show ?thesis by auto
      next
        case (Some vl)
        with Inr c have "collect items (keys @ [k]) (vls @ [vl]) = Inl e" by simp
        with 2(2) show ?thesis by auto
      qed
    qed
  qed
next
  case (3 k x)
  show ?case by simp
next
  case (4 k fs)
  show ?case
  proof (intro impI allI)
    fix e
    assume "value_list k (Parameters fs) = Inl e"
    then have "collect fs [] [] = Inl e"
      by (auto simp: get_settings.simps split: sum.splits)
    with 4 show "e = AttributeError \<or>
          (\<exists>n \<in> set (empty_val k (Parameters fs)). e = ValueError (''Empty settings list for '' @ n))"
      by auto
  qed
next
  case (5 k vs)
  then show ?case by (auto split: sum.splits if_splits)
next
  case 6
  show ?case by simp
next
  case (7 fs vs)
  show ?case
  proof (intro impI allI)
    fix e
    assume a: "expand_each (Parameters fs # vs) = Inl e"
    show "e = AttributeError \<or>
          (\<exists>n \<in> set (empty_each (Parameters fs # vs)). e = ValueError (''Empty settings list for '' @ n))"
    proof (cases "get_settings fs")
      case (Inl e')
      with a have "e' = e" by simp
      with Inl have "collect fs [] [] = Inl e"
        by (auto simp: get_settings.simps split: sum.splits)
      with 7(1) show ?thesis by auto
    next
      case (Inr s)
      with a have "expand_each vs = Inl e" by (auto split: sum.splits)
      with 7(2) show ?thesis by auto
    qed
  qed
qed simp_all

subsection \<open>The order of the product\<close>








subsection \<open>The claims about the expansion\<close>




lemma getitem_assign:
  "getitem (assign kvs self) k =
     (case getitem self k of None \<Rightarrow> None
      | Some v \<Rightarrow> Some (case map_of kvs k of None \<Rightarrow> v | Some w \<Rightarrow> w))"
  by (induction self) (auto simp: assign_def)


text \<open>
  Claim C4. When a field that the expansion reaches holds an empty settings list,
  \<open>get_settings\<close> returns no outputs but an error: AttributeError, or the ValueError that
  names such a field. On a uniform tree, a tree otherwise valid, it is the ValueError that
  names the first such field.
\<close>

theorem empty_settings_fails:
  assumes "empty_fields self \<noteq> []"
  shows "(\<exists>e. get_settings self = Inl e \<and>
            (e = AttributeError \<or>
             (\<exists>n \<in> set (empty_fields self). e = ValueError (''Empty settings list for '' @ n))))
       \<and> (uniform_fields self \<longrightarrow>
            get_settings self = Inl (ValueError (''Empty settings list for '' @ hd (empty_fields self))))"
proof (intro conjI impI)
  from empty_fails(1)[of self] assms obtain e where e: "collect self [] [] = Inl e" by blast
  with error_kind(1)[of self] have
    "e = AttributeError \<or> (\<exists>n \<in> set (empty_fields self). e = ValueError (''Empty settings list for '' @ n))"
    by blast
  with e show "\<exists>e. get_settings self = Inl e \<and>
            (e = AttributeError \<or>
             (\<exists>n \<in> set (empty_fields self). e = ValueError (''Empty settings list for '' @ n)))"
    by (auto simp: get_settings_Inl)
next
  assume "uniform_fields self"
  with uniform_result(1)[of self] assms
  have "collect self [] [] = Inl (ValueError (''Empty settings list for '' @ hd (empty_fields self)))"
    by simp
  then show "get_settings self = Inl (ValueError (''Empty settings list for '' @ hd (empty_fields self)))"
    by (simp add: get_settings_Inl)
qed




theorem empty_settings_fails_witness:
  "empty_fields [(''a'', Parameters [(''c'', Settings [])]), (''b'', Value (3::nat))] \<noteq> []
   \<and> uniform_fields [(''a'', Parameters [(''c'', Settings [])]), (''b'', Value (3::nat))]
   \<and> get_settings [(''a'', Parameters [(''c'', Settings [])]), (''b'', Value (3::nat))]
       = Inl (ValueError ''Empty settings list for c'')"
proof -
  let ?E = "[(''a'', Parameters [(''c'', Settings [])]), (''b'', Value (3::nat))]"
  have e: "empty_fields ?E \<noteq> []" by simp
  have u: "uniform_fields ?E" by simp
  from empty_settings_fails[OF e] u
  have "get_settings ?E = Inl (ValueError (''Empty settings list for '' @ hd (empty_fields ?E)))"
    by blast
  with e u show ?thesis by simp
qed

subsection \<open>Dictionaries and dotted keys\<close>

lemma setitem_fresh: "k \<notin> set (map fst d) \<Longrightarrow> setitem k v d = d @ [(k, v)]"
  by (induction d) auto

lemma setitem_same: "getitem d k = Some v \<Longrightarrow> setitem k v d = d"
  by (induction d k rule: getitem.induct) auto

lemma setitem_setitem: "setitem k v (setitem k w d) = setitem k v d"
  by (induction d) auto

lemma getitem_setitem: "getitem (setitem k v d) k' = (if k' = k then Some v else getitem d k')"
  by (induction d) auto

lemma getitem_None: "getitem d k = None \<longleftrightarrow> k \<notin> set (map fst d)"
  by (induction d k rule: getitem.induct) auto

lemma setitem_append_fresh:
  "k \<notin> set (map fst d) \<Longrightarrow> setitem k v (d @ [(k, w)]) = d @ [(k, v)]"
  by (induction d) auto

lemma update_dict_fresh:
  "distinct (map fst e) \<Longrightarrow> set (map fst e) \<inter> set (map fst d) = {} \<Longrightarrow> update_dict e d = d @ e"
proof (induction e arbitrary: d)
  case Nil
  show ?case by simp
next
  case (Cons a e)
  obtain k v where a: "a = (k, v)" by (cases a)
  from Cons.prems a have k: "k \<notin> set (map fst d)" by auto
  have "update_dict e (d @ [(k, v)]) = (d @ [(k, v)]) @ e"
    using Cons.prems a by (intro Cons.IH) auto
  with k a show ?case by (simp add: setitem_fresh)
qed

lemma dot_startswith: "startswith (c # cs) ''.'' \<longleftrightarrow> c = CHR ''.''"
  by (simp add: startswith_def)

lemma split_once_dot_Cons:
  "split_once ''.'' (c # cs) =
     (if c = CHR ''.'' then Some ([], cs)
      else (case split_once ''.'' cs of None \<Rightarrow> None | Some (a, b) \<Rightarrow> Some (c # a, b)))"
  by (simp add: dot_startswith)

lemma split_once_dotfree: "CHR ''.'' \<notin> set k \<Longrightarrow> split_once ''.'' (k @ CHR ''.'' # r) = Some (k, r)"
  by (induction k) (auto simp: dot_startswith)

lemma split_once_None: "CHR ''.'' \<notin> set k \<Longrightarrow> split_once ''.'' k = None"
  by (induction k) (auto simp: dot_startswith)

lemma split_once_dot_Some:
  "split_once ''.'' p = Some (a, b) \<Longrightarrow> p = a @ CHR ''.'' # b \<and> CHR ''.'' \<notin> set a"
proof (induction p arbitrary: a b)
  case Nil
  then show ?case by simp
next
  case (Cons c cs)
  show ?case
  proof (cases "c = CHR ''.''")
    case True
    with Cons.prems show ?thesis by (simp add: dot_startswith)
  next
    case False
    with Cons.prems obtain a' where s: "split_once ''.'' cs = Some (a', b)" and a: "a = c # a'"
      by (auto simp: dot_startswith split: option.splits)
    from Cons.IH[OF s] a False show ?thesis by simp
  qed
qed

lemma split_once_dot_None: "split_once ''.'' p = None \<Longrightarrow> CHR ''.'' \<notin> set p"
proof (induction p)
  case Nil
  show ?case by simp
next
  case (Cons c cs)
  then show ?case by (auto simp: dot_startswith split: if_splits option.splits)
qed

lemma split_once_extend:
  "split_once ''.'' (p @ CHR ''.'' # r) =
     (case split_once ''.'' p of None \<Rightarrow> Some (p, r) | Some (a, b) \<Rightarrow> Some (a, b @ CHR ''.'' # r))"
proof (cases "split_once ''.'' p")
  case None
  then show ?thesis by (simp add: split_once_dot_None split_once_dotfree)
next
  case (Some ab)
  obtain a b where ab: "ab = (a, b)" by (cases ab)
  from split_once_dot_Some[of p a b] Some ab have p: "p = a @ CHR ''.'' # b" and a: "CHR ''.'' \<notin> set a"
    by simp_all
  have "split_once ''.'' (a @ CHR ''.'' # (b @ CHR ''.'' # r)) = Some (a, b @ CHR ''.'' # r)"
    using a by (rule split_once_dotfree)
  with Some ab p show ?thesis by simp
qed

subsection \<open>The store\<close>

lemma cell_at_update:
  "cell_at (h[a := c]) b = (if b = a \<and> a < length h then Some c else cell_at h b)"
  by (simp add: cell_at_def)

lemma cell_at_append:
  "cell_at (h @ [c]) b = (if b = length h then Some c else cell_at h b)"
  by (auto simp: cell_at_def nth_append)

lemma cell_at_length: "cell_at h a = Some c \<Longrightarrow> a < length h"
  by (simp add: cell_at_def split: if_splits)

lemma getitem_append_other: "getitem es k = Some b \<Longrightarrow> getitem (es @ fs) k = Some b"
  by (induction es) (auto split: if_splits)

lemma getitem_append_new: "getitem es k = None \<Longrightarrow> getitem (es @ [(k, b)]) k = Some b"
  by (induction es) (auto split: if_splits)

lemma nest_single:
  "split_once ''.'' k = None \<Longrightarrow> nest_dict_rec k v out ''.'' h = setitem_obj h out k v"
  by (subst nest_dict_rec.simps) simp

lemma nest_path:
  "split_once ''.'' k = Some (k1, rest) \<Longrightarrow>
   nest_dict_rec k v out ''.'' h =
     (case setdefault_obj h out k1 of
        Inl e \<Rightarrow> Inl e
      | Inr (h', sub) \<Rightarrow> nest_dict_rec rest v sub ''.'' h')"
  by (subst nest_dict_rec.simps) simp

lemma setitem_obj_error: "setitem_obj h out k v = Inl e \<Longrightarrow> e = TypeError"
  by (auto simp: setitem_obj_def split: option.splits cell.splits)

lemma setdefault_obj_error: "setdefault_obj h out k = Inl e \<Longrightarrow> e = AttributeError"
  by (auto simp: setdefault_obj_def split: option.splits cell.splits)

lemma nest_error_kind:
  "nest_dict_rec k v out ''.'' h = Inl e \<Longrightarrow> e = TypeError \<or> e = AttributeError"
proof (induction "length k" arbitrary: k out h rule: less_induct)
  case less
  show ?case
  proof (cases "split_once ''.'' k")
    case None
    with less.prems show ?thesis by (auto simp: nest_single dest: setitem_obj_error)
  next
    case (Some ab)
    obtain k1 rest where ab: "ab = (k1, rest)" by (cases ab)
    with Some have s: "split_once ''.'' k = Some (k1, rest)" by simp
    then have l: "length rest < length k" by (auto dest: split_once_shorter)
    show ?thesis
    proof (cases "setdefault_obj h out k1")
      case (Inl e')
      with less.prems s show ?thesis by (auto simp: nest_path dest: setdefault_obj_error)
    next
      case (Inr r)
      obtain h1 sub where r: "r = (h1, sub)" by (cases r)
      with Inr less.prems s have "nest_dict_rec rest v sub ''.'' h1 = Inl e" by (simp add: nest_path)
      with l show ?thesis by (rule less.hyps)
    qed
  qed
qed

lemma nest_items_error_kind:
  "nest_items items out ''.'' h = Inl e \<Longrightarrow> e = TypeError \<or> e = AttributeError"
proof (induction items arbitrary: h)
  case Nil
  then show ?case by simp
next
  case (Cons a items)
  obtain k v where a: "a = (k, v)" by (cases a)
  show ?case
  proof (cases "nest_dict_rec k v out ''.'' h")
    case (Inl e')
    with Cons.prems a have "e' = e" by simp
    with Inl show ?thesis by (auto dest: nest_error_kind)
  next
    case (Inr h')
    with Cons.prems a have "nest_items items out ''.'' h' = Inl e" by simp
    then show ?thesis by (rule Cons.IH)
  qed
qed

lemma nest_items_append:
  "nest_items (xs @ ys) out sep h =
     (case nest_items xs out sep h of Inl e \<Rightarrow> Inl e | Inr h' \<Rightarrow> nest_items ys out sep h')"
  by (induction xs arbitrary: h) (auto split: sum.splits)

lemma evolves_refl: "evolves v h h"
  by (simp add: evolves_def)

lemma evolves_trans:
  assumes a: "evolves v h h1" and b: "evolves v h1 h2"
  shows "evolves v h h2"
  unfolding evolves_def
proof (intro conjI allI impI)
  from a b show "length h \<le> length h2" by (auto simp: evolves_def)
next
  fix c x assume "cell_at h c = Some (CLeaf x)"
  with a have "cell_at h1 c = Some (CLeaf x)" by (simp add: evolves_def)
  with b show "cell_at h2 c = Some (CLeaf x)" by (simp add: evolves_def)
next
  fix c es assume c: "cell_at h c = Some (CDict es)"
  with a obtain es1 where e1: "cell_at h1 c = Some (CDict es1)"
    and k1: "\<forall>k b. getitem es k = Some b \<longrightarrow> getitem es1 k = Some b \<or> getitem es1 k = Some v"
    unfolding evolves_def by blast
  from b e1 obtain es2 where e2: "cell_at h2 c = Some (CDict es2)"
    and k2: "\<forall>k b. getitem es1 k = Some b \<longrightarrow> getitem es2 k = Some b \<or> getitem es2 k = Some v"
    unfolding evolves_def by blast
  have "\<forall>k b. getitem es k = Some b \<longrightarrow> getitem es2 k = Some b \<or> getitem es2 k = Some v"
    using k1 k2 by blast
  with e2 show "\<exists>es'. cell_at h2 c = Some (CDict es') \<and>
      (\<forall>k b. getitem es k = Some b \<longrightarrow> getitem es' k = Some b \<or> getitem es' k = Some v)" by blast
next
  fix c es assume c: "cell_at h c = Some (CInst es)"
  with a obtain es1 where e1: "cell_at h1 c = Some (CInst es1)"
    and k1: "\<forall>k b. getitem es k = Some b \<longrightarrow> getitem es1 k = Some b \<or> getitem es1 k = Some v"
    unfolding evolves_def by blast
  from b e1 obtain es2 where e2: "cell_at h2 c = Some (CInst es2)"
    and k2: "\<forall>k b. getitem es1 k = Some b \<longrightarrow> getitem es2 k = Some b \<or> getitem es2 k = Some v"
    unfolding evolves_def by blast
  have "\<forall>k b. getitem es k = Some b \<longrightarrow> getitem es2 k = Some b \<or> getitem es2 k = Some v"
    using k1 k2 by blast
  with e2 show "\<exists>es'. cell_at h2 c = Some (CInst es') \<and>
      (\<forall>k b. getitem es k = Some b \<longrightarrow> getitem es' k = Some b \<or> getitem es' k = Some v)" by blast
qed

lemma setitem_obj_evolves: "setitem_obj h out k v = Inr h' \<Longrightarrow> evolves v h h'"
  unfolding setitem_obj_def evolves_def
  by (auto simp: cell_at_update getitem_setitem split: option.splits cell.splits)

lemma setdefault_obj_evolves: "setdefault_obj h out k = Inr (h', sub) \<Longrightarrow> evolves v h h'"
  unfolding setdefault_obj_def evolves_def
  by (auto simp: cell_at_update cell_at_append getitem_append_other
        dest: cell_at_length split: option.splits cell.splits)

lemma nest_dict_rec_evolves:
  "nest_dict_rec k v out ''.'' h = Inr h' \<Longrightarrow> evolves v h h'"
proof (induction "length k" arbitrary: k out h rule: less_induct)
  case less
  show ?case
  proof (cases "split_once ''.'' k")
    case None
    with less.prems show ?thesis by (auto simp: nest_single dest: setitem_obj_evolves)
  next
    case (Some ab)
    obtain k1 rest where ab: "ab = (k1, rest)" by (cases ab)
    with Some have s: "split_once ''.'' k = Some (k1, rest)" by simp
    then have l: "length rest < length k" by (auto dest: split_once_shorter)
    from less.prems s obtain h1 sub where d: "setdefault_obj h out k1 = Inr (h1, sub)"
      and r: "nest_dict_rec rest v sub ''.'' h1 = Inr h'"
      by (auto simp: nest_path split: sum.splits)
    from d have "evolves v h h1" by (rule setdefault_obj_evolves)
    moreover from l r have "evolves v h1 h'" by (rule less.hyps)
    ultimately show ?thesis by (rule evolves_trans)
  qed
qed

subsection \<open>Nesting a flattened mapping\<close>

lemma flat_nonempty:
  fixes d :: "'a dict" and v :: "'a nested"
  shows "dotfree_items d \<longrightarrow> d \<noteq> [] \<longrightarrow> flat d \<noteq> []"
    and "dotfree_value v \<longrightarrow> flat_value k v \<noteq> []"
  by (induction d and k v rule: flat_flat_value.induct) auto

lemma leaf_refs_append: "leaf_refs (xs @ ys) = leaf_refs xs @ leaf_refs ys"
  by (induction xs rule: leaf_refs.induct) auto

lemma leaf_refs_prefix:
  "leaf_refs (map (\<lambda>(key, w). (f key, w)) fl) = map (\<lambda>(key, a). (f key, a)) (leaf_refs fl)"
  by (induction fl rule: leaf_refs.induct) auto

lemma leaf_refs_flat_value:
  "leaf_refs (flat_value k (Dict d)) = map (\<lambda>(key, a). (k @ CHR ''.'' # key, a)) (leaf_refs (flat d))"
  using leaf_refs_prefix[of "\<lambda>key. k @ CHR ''.'' # key" "flat d"] by simp

lemma leaf_refs_leaves: "leaf_refs (map (\<lambda>(k, a). (k, Leaf a)) items) = items"
  by (induction items) auto

lemma under_path_snoc: "under_path (ps @ [k]) key = under_path ps (k @ CHR ''.'' # key)"
  by (induction ps) auto

lemma stored_frame:
  fixes v :: "nat nested" and d :: "nat dict"
  shows "stored lo h a v \<Longrightarrow> \<forall>b. lo \<le> b \<and> b < length h \<longrightarrow> cell_at h' b = cell_at h b \<Longrightarrow> stored lo h' a v"
    and "stored_items lo h es d \<Longrightarrow> \<forall>b. lo \<le> b \<and> b < length h \<longrightarrow> cell_at h' b = cell_at h b \<Longrightarrow>
           stored_items lo h' es d"
proof (induction lo h a v and lo h es d rule: stored_stored_items.induct)
  case (2 lo h a d)
  from 2(2) obtain es where c: "cell_at h a = Some (CDict es)" and s: "stored_items lo h es d"
    and lo: "lo \<le> a" by (auto split: option.splits cell.splits)
  from c have "a < length h" by (rule cell_at_length)
  with lo 2(3) c have c': "cell_at h' a = Some (CDict es)" by simp
  from 2(1)[OF c refl s 2(3)] c' lo show ?case by simp
qed auto

lemma stored_mono:
  fixes v :: "nat nested" and d :: "nat dict"
  shows "stored lo h a v \<Longrightarrow> lo' \<le> lo \<Longrightarrow> stored lo' h a v"
    and "stored_items lo h es d \<Longrightarrow> lo' \<le> lo \<Longrightarrow> stored_items lo' h es d"
proof (induction lo h a v and lo h es d rule: stored_stored_items.induct)
  case (2 lo h a d)
  from 2(2) obtain es where c: "cell_at h a = Some (CDict es)" and s: "stored_items lo h es d"
    and lo: "lo \<le> a" by (auto split: option.splits cell.splits)
  from 2(1)[OF c refl s 2(3)] c lo 2(3) show ?case by simp
qed auto

lemma stored_items_append:
  "stored_items lo h es d \<Longrightarrow> stored_items lo h es' d' \<Longrightarrow> stored_items lo h (es @ es') (d @ d')"
proof (induction es arbitrary: d)
  case Nil
  then show ?case by (cases d) auto
next
  case (Cons e es)
  obtain k a where e: "e = (k, a)" by (cases e)
  from Cons.prems(1) e obtain k' v d0 where d: "d = (k', v) # d0" by (cases d) auto
  with Cons e show ?case by auto
qed

lemma stored_items_keys: "stored_items lo h es d \<Longrightarrow> map fst es = map fst d"
proof (induction es arbitrary: d)
  case Nil
  then show ?case by (cases d) auto
next
  case (Cons e es)
  obtain k a where e: "e = (k, a)" by (cases e)
  from Cons.prems(1) e obtain k' v d0 where d: "d = (k', v) # d0" by (cases d) auto
  with Cons e show ?case by auto
qed

lemma path_frame:
  "path h a ps out \<Longrightarrow> \<forall>b < out. cell_at h' b = cell_at h b \<Longrightarrow> path h' a ps out"
proof (induction ps arbitrary: a)
  case Nil
  then show ?case by simp
next
  case (Cons k ps)
  from Cons.prems(1) obtain es b where lt: "a < out" and c: "cell_at h a = Some (CDict es)"
    and g: "getitem es k = Some b" and p: "path h b ps out"
    by (auto split: option.splits cell.splits)
  from lt Cons.prems(2) c have "cell_at h' a = Some (CDict es)" by simp
  with lt g Cons.IH[OF p Cons.prems(2)] show ?case by simp
qed

lemma path_le: "path h a ps out \<Longrightarrow> a \<le> out"
  by (cases ps) auto

lemma path_snoc:
  "path h a ps out \<Longrightarrow> cell_at h out = Some (CDict es) \<Longrightarrow> getitem es k = Some n \<Longrightarrow> out < n \<Longrightarrow>
     path h a (ps @ [k]) n"
proof (induction ps arbitrary: a)
  case Nil
  then show ?case by simp
next
  case (Cons k' ps)
  from Cons.prems(1) obtain es' b where lt: "a < out" and c: "cell_at h a = Some (CDict es')"
    and g: "getitem es' k' = Some b" and p: "path h b ps out"
    by (auto split: option.splits cell.splits)
  from Cons.IH[OF p Cons.prems(2,3,4)] lt Cons.prems(4) c g show ?case by simp
qed

lemma nest_under_path:
  "path h root ps out \<Longrightarrow> list_all (\<lambda>k. CHR ''.'' \<notin> set k) ps \<Longrightarrow>
     nest_dict_rec (under_path ps key) a root ''.'' h = nest_dict_rec key a out ''.'' h"
proof (induction ps arbitrary: root)
  case Nil
  then show ?case by simp
next
  case (Cons k ps)
  from Cons.prems(1) obtain es b where c: "cell_at h root = Some (CDict es)"
    and g: "getitem es k = Some b" and p: "path h b ps out"
    by (auto split: option.splits cell.splits)
  from Cons.prems(2) have k: "CHR ''.'' \<notin> set k" and ps: "list_all (\<lambda>k. CHR ''.'' \<notin> set k) ps" by simp_all
  have sp: "split_once ''.'' (k @ CHR ''.'' # under_path ps key) = Some (k, under_path ps key)"
    using k by (rule split_once_dotfree)
  from c g have "setdefault_obj h root k = Inr (h, b)" by (simp add: setdefault_obj_def)
  then have "nest_dict_rec (under_path (k # ps) key) a root ''.'' h = nest_dict_rec (under_path ps key) a b ''.'' h"
    by (simp add: nest_path[OF sp])
  with Cons.IH[OF p ps] show ?case by simp
qed


lemma flat_leaves:
  fixes d :: "nat dict" and v :: "nat nested"
  shows "map (\<lambda>(k, a). (k, Leaf a)) (leaf_refs (flat d)) = flat d"
    and "map (\<lambda>(k, a). (k, Leaf a)) (leaf_refs (flat_value k v)) = flat_value k v"
proof (induction d and k v rule: flat_flat_value.induct)
  case (4 k d)
  have "map (\<lambda>(k, a). (k, Leaf a)) (map (\<lambda>(key, a). (k @ CHR ''.'' # key, a)) (leaf_refs (flat d))) =
        map (\<lambda>(key, w). (k @ CHR ''.'' # key, w)) (map (\<lambda>(k, a). (k, Leaf a)) (leaf_refs (flat d)))"
    by (simp add: case_prod_unfold)
  with 4 have "map (\<lambda>(k, a). (k, Leaf a)) (map (\<lambda>(key, a). (k @ CHR ''.'' # key, a)) (leaf_refs (flat d))) =
        flat_value k (Dict d)" by simp
  then show ?case by (simp only: leaf_refs_flat_value)
qed (simp_all add: leaf_refs_append)

lemma nest_items_created:
  assumes k: "CHR ''.'' \<notin> set k" and ps: "list_all (\<lambda>k. CHR ''.'' \<notin> set k) ps"
    and p: "path h root ps out" and c: "cell_at h out = Some (CDict es)"
    and fr: "k \<notin> set (map fst es)" and ne: "F \<noteq> []"
  shows "nest_items (map (\<lambda>(key, a). (under_path (ps @ [k]) key, a)) F) root ''.'' h =
         nest_items (map (\<lambda>(key, a). (under_path (ps @ [k]) key, a)) F) root ''.''
           (h[out := CDict (es @ [(k, length h)])] @ [CDict []])
       \<and> path (h[out := CDict (es @ [(k, length h)])] @ [CDict []]) root (ps @ [k]) (length h)"
proof -
  let ?h1 = "h[out := CDict (es @ [(k, length h)])] @ [CDict []]"
  from c have ol: "out < length h" by (rule cell_at_length)
  from fr have gn: "getitem es k = None" by (simp add: getitem_None)
  have c1: "cell_at ?h1 out = Some (CDict (es @ [(k, length h)]))"
    using ol by (simp add: cell_at_append cell_at_update)
  have "\<forall>b < out. cell_at ?h1 b = cell_at h b"
    using ol by (simp add: cell_at_append cell_at_update)
  with p have "path ?h1 root ps out" by (rule path_frame)
  then have p1: "path ?h1 root (ps @ [k]) (length h)"
    using c1 getitem_append_new[OF gn] ol by (rule path_snoc)
  have ps1: "list_all (\<lambda>k. CHR ''.'' \<notin> set k) (ps @ [k])" using ps k by simp
  from ne obtain key1 a1 F' where F: "F = (key1, a1) # F'" by (cases F) auto
  have sp: "split_once ''.'' (k @ CHR ''.'' # key1) = Some (k, key1)" using k by (rule split_once_dotfree)
  have sd: "setdefault_obj h out k = Inr (?h1, length h)" using c gn by (simp add: setdefault_obj_def)
  have "nest_dict_rec (under_path (ps @ [k]) key1) a1 root ''.'' h =
        nest_dict_rec (k @ CHR ''.'' # key1) a1 out ''.'' h"
    using nest_under_path[OF p ps, of "k @ CHR ''.'' # key1" a1] by (simp add: under_path_snoc)
  also have "\<dots> = nest_dict_rec key1 a1 (length h) ''.'' ?h1"
    using sd by (simp add: nest_path[OF sp])
  also have "\<dots> = nest_dict_rec (under_path (ps @ [k]) key1) a1 root ''.'' ?h1"
    using nest_under_path[OF p1 ps1, of key1 a1] by simp
  finally have "nest_dict_rec (under_path (ps @ [k]) key1) a1 root ''.'' h =
      nest_dict_rec (under_path (ps @ [k]) key1) a1 root ''.'' ?h1" .
  with F p1 show ?thesis by simp
qed

lemma nest_flat_store:
  fixes d :: "nat dict" and v :: "nat nested"
  shows "dotfree_items d \<longrightarrow> (\<forall>ps root out (h :: 'a store) es.
           list_all (\<lambda>k. CHR ''.'' \<notin> set k) ps \<and> path h root ps out \<and>
           cell_at h out = Some (CDict es) \<and> set (map fst d) \<inter> set (map fst es) = {} \<longrightarrow>
           (\<exists>h' es'. nest_items (map (\<lambda>(key, a). (under_path ps key, a)) (leaf_refs (flat d))) root ''.'' h = Inr h' \<and>
              cell_at h' out = Some (CDict (es @ es')) \<and> stored_items (length h) h' es' d \<and>
              length h \<le> length h' \<and> (\<forall>b < length h. b \<noteq> out \<longrightarrow> cell_at h' b = cell_at h b)))"
    and "dotfree_value v \<longrightarrow> CHR ''.'' \<notin> set k \<longrightarrow> (\<forall>ps root out (h :: 'a store) es.
           list_all (\<lambda>k. CHR ''.'' \<notin> set k) ps \<and> path h root ps out \<and>
           cell_at h out = Some (CDict es) \<and> k \<notin> set (map fst es) \<longrightarrow>
           (\<exists>h' a. nest_items (map (\<lambda>(key, a). (under_path ps key, a)) (leaf_refs (flat_value k v))) root ''.'' h = Inr h' \<and>
              cell_at h' out = Some (CDict (es @ [(k, a)])) \<and> stored (length h) h' a v \<and>
              length h \<le> length h' \<and> (\<forall>b < length h. b \<noteq> out \<longrightarrow> cell_at h' b = cell_at h b)))"
proof (induction d and k v rule: flat_flat_value.induct)
  case 1
  show ?case by simp
next
  case (2 k v d)
  show ?case
  proof (intro impI allI, elim conjE)
    fix ps root out and h :: "'a store" and es
    assume w: "dotfree_items ((k, v) # d)"
      and ps: "list_all (\<lambda>k. CHR ''.'' \<notin> set k) ps" and p: "path h root ps out"
      and c: "cell_at h out = Some (CDict es)"
      and dj: "set (map fst ((k, v) # d)) \<inter> set (map fst es) = {}"
    let ?f = "\<lambda>(key, a). (under_path ps key, a :: nat)"
    from c have ol: "out < length h" by (rule cell_at_length)
    from w have wv: "dotfree_value v" and kd: "CHR ''.'' \<notin> set k" and wd: "dotfree_items d"
      and kf: "k \<notin> set (map fst d)" by simp_all
    from dj have ke: "k \<notin> set (map fst es)" by auto
    from 2(1) wv kd ps p c ke obtain h1 a where
      n1: "nest_items (map ?f (leaf_refs (flat_value k v))) root ''.'' h = Inr h1"
      and c1: "cell_at h1 out = Some (CDict (es @ [(k, a)]))"
      and s1: "stored (length h) h1 a v" and l1: "length h \<le> length h1"
      and f1: "\<forall>b < length h. b \<noteq> out \<longrightarrow> cell_at h1 b = cell_at h b"
      by blast
    from f1 ol have "\<forall>b < out. cell_at h1 b = cell_at h b" by simp
    with p have p1: "path h1 root ps out" by (rule path_frame)
    from dj kf have dj1: "set (map fst d) \<inter> set (map fst (es @ [(k, a)])) = {}" by auto
    from 2(2) wd ps p1 c1 dj1 obtain h2 es' where
      n2: "nest_items (map ?f (leaf_refs (flat d))) root ''.'' h1 = Inr h2"
      and c2: "cell_at h2 out = Some (CDict ((es @ [(k, a)]) @ es'))"
      and s2: "stored_items (length h1) h2 es' d" and l2: "length h1 \<le> length h2"
      and f2: "\<forall>b < length h1. b \<noteq> out \<longrightarrow> cell_at h2 b = cell_at h1 b"
      by blast
    have n: "nest_items (map ?f (leaf_refs (flat ((k, v) # d)))) root ''.'' h = Inr h2"
      using n1 n2 by (simp add: leaf_refs_append nest_items_append)
    from f2 ol have "\<forall>b. length h \<le> b \<and> b < length h1 \<longrightarrow> cell_at h2 b = cell_at h1 b" by simp
    with s1 have sa: "stored (length h) h2 a v" by (rule stored_frame(1))
    from s2 l1 have sb: "stored_items (length h) h2 es' d" by (rule stored_mono(2))
    from sa sb have s: "stored_items (length h) h2 ((k, a) # es') ((k, v) # d)" by simp
    from f1 f2 l1 have f: "\<forall>b < length h. b \<noteq> out \<longrightarrow> cell_at h2 b = cell_at h b" by simp
    from c2 have c: "cell_at h2 out = Some (CDict (es @ (k, a) # es'))" by simp
    from n c s l1 l2 f
    show "\<exists>h' es'. nest_items (map ?f (leaf_refs (flat ((k, v) # d)))) root ''.'' h = Inr h' \<and>
              cell_at h' out = Some (CDict (es @ es')) \<and> stored_items (length h) h' es' ((k, v) # d) \<and>
              length h \<le> length h' \<and> (\<forall>b < length h. b \<noteq> out \<longrightarrow> cell_at h' b = cell_at h b)"
      by (intro exI[of _ h2] exI[of _ "(k, a) # es'"]) simp
  qed
next
  case (3 k x)
  show ?case
  proof (intro impI allI, elim conjE)
    fix ps root out and h :: "'a store" and es
    assume kd: "CHR ''.'' \<notin> set k"
      and ps: "list_all (\<lambda>k. CHR ''.'' \<notin> set k) ps" and p: "path h root ps out"
      and c: "cell_at h out = Some (CDict es)" and ke: "k \<notin> set (map fst es)"
    let ?f = "\<lambda>(key, a). (under_path ps key, a :: nat)"
    let ?h' = "h[out := CDict (es @ [(k, x)])]"
    from c have ol: "out < length h" by (rule cell_at_length)
    have sn: "split_once ''.'' k = None" using kd by (rule split_once_None)
    have "nest_dict_rec (under_path ps k) x root ''.'' h = nest_dict_rec k x out ''.'' h"
      using p ps by (rule nest_under_path)
    also have "\<dots> = Inr ?h'"
      using c ke by (simp add: nest_single[OF sn] setitem_obj_def setitem_fresh)
    finally have n: "nest_items (map ?f (leaf_refs (flat_value k (Leaf x)))) root ''.'' h = Inr ?h'"
      by simp
    have c': "cell_at ?h' out = Some (CDict (es @ [(k, x)]))" using ol by (simp add: cell_at_update)
    have f: "\<forall>b < length h. b \<noteq> out \<longrightarrow> cell_at ?h' b = cell_at h b" by (simp add: cell_at_update)
    from n c' f
    show "\<exists>h' a. nest_items (map ?f (leaf_refs (flat_value k (Leaf x)))) root ''.'' h = Inr h' \<and>
              cell_at h' out = Some (CDict (es @ [(k, a)])) \<and> stored (length h) h' a (Leaf x) \<and>
              length h \<le> length h' \<and> (\<forall>b < length h. b \<noteq> out \<longrightarrow> cell_at h' b = cell_at h b)"
      by (intro exI[of _ ?h'] exI[of _ x]) simp
  qed
next
  case (4 k d)
  show ?case
  proof (intro impI allI, elim conjE)
    fix ps root out and h :: "'a store" and es
    assume w: "dotfree_value (Dict d)" and kd: "CHR ''.'' \<notin> set k"
      and ps: "list_all (\<lambda>k. CHR ''.'' \<notin> set k) ps" and p: "path h root ps out"
      and c: "cell_at h out = Some (CDict es)" and ke: "k \<notin> set (map fst es)"
    let ?f = "\<lambda>(key, a). (under_path ps key, a :: nat)"
    let ?g = "\<lambda>(key, a). (under_path (ps @ [k]) key, a :: nat)"
    let ?n = "length h"
    let ?h1 = "h[out := CDict (es @ [(k, ?n)])] @ [CDict []]"
    from c have ol: "out < length h" by (rule cell_at_length)
    from w have wd: "dotfree_items d" and dn: "d \<noteq> []" by simp_all
    from wd dn have "flat d \<noteq> []" using flat_nonempty(1)[of d] by simp
    with flat_leaves(1)[of d] have ne: "leaf_refs (flat d) \<noteq> []" by auto
    have "map ?f (map (\<lambda>(key, a). (k @ CHR ''.'' # key, a)) (leaf_refs (flat d))) =
          map ?g (leaf_refs (flat d))"
      by (simp add: under_path_snoc case_prod_unfold)
    then have items: "map ?f (leaf_refs (flat_value k (Dict d))) = map ?g (leaf_refs (flat d))"
      by (simp only: leaf_refs_flat_value)
    from nest_items_created[OF kd ps p c ke ne]
    have eq: "nest_items (map ?g (leaf_refs (flat d))) root ''.'' h =
              nest_items (map ?g (leaf_refs (flat d))) root ''.'' ?h1"
      and p1: "path ?h1 root (ps @ [k]) ?n" by simp_all
    have ps1: "list_all (\<lambda>k. CHR ''.'' \<notin> set k) (ps @ [k])" using ps kd by simp
    have cn: "cell_at ?h1 ?n = Some (CDict [])" by (simp add: cell_at_append)
    have "set (map fst d) \<inter> set (map fst ([] :: (string \<times> nat) list)) = {}" by simp
    with 4 wd ps1 p1 cn obtain h' es' where
      n: "nest_items (map ?g (leaf_refs (flat d))) root ''.'' ?h1 = Inr h'"
      and c': "cell_at h' ?n = Some (CDict ([] @ es'))"
      and s: "stored_items (length ?h1) h' es' d" and l: "length ?h1 \<le> length h'"
      and f: "\<forall>b < length ?h1. b \<noteq> ?n \<longrightarrow> cell_at h' b = cell_at ?h1 b"
      by blast
    from n eq items have n': "nest_items (map ?f (leaf_refs (flat_value k (Dict d)))) root ''.'' h = Inr h'"
      by simp
    from f ol have "cell_at h' out = cell_at ?h1 out" by simp
    with ol have co: "cell_at h' out = Some (CDict (es @ [(k, ?n)]))"
      by (simp add: cell_at_append cell_at_update)
    have "stored_items ?n h' es' d" using s by (rule stored_mono(2)) simp
    with c' have st: "stored ?n h' ?n (Dict d)" by simp
    from l have ll: "?n \<le> length h'" by simp
    have fr: "\<forall>b < ?n. b \<noteq> out \<longrightarrow> cell_at h' b = cell_at h b"
    proof (intro allI impI)
      fix b assume b: "b < ?n" and bo: "b \<noteq> out"
      with f have "cell_at h' b = cell_at ?h1 b" by simp
      also from b bo have "\<dots> = cell_at h b" by (simp add: cell_at_append cell_at_update)
      finally show "cell_at h' b = cell_at h b" .
    qed
    from n' co st ll fr
    show "\<exists>h' a. nest_items (map ?f (leaf_refs (flat_value k (Dict d)))) root ''.'' h = Inr h' \<and>
              cell_at h' out = Some (CDict (es @ [(k, a)])) \<and> stored (length h) h' a (Dict d) \<and>
              length h \<le> length h' \<and> (\<forall>b < length h. b \<noteq> out \<longrightarrow> cell_at h' b = cell_at h b)"
      by (intro exI[of _ h'] exI[of _ ?n]) simp
  qed
qed


subsection \<open>Flattening without collisions\<close>

lemma head_segment_leaf: "CHR ''.'' \<notin> set k \<Longrightarrow> takeWhile (\<lambda>c. c \<noteq> CHR ''.'') k = k"
  by (induction k) auto

lemma head_segment_prefix:
  "CHR ''.'' \<notin> set k \<Longrightarrow> takeWhile (\<lambda>c. c \<noteq> CHR ''.'') (k @ CHR ''.'' # r) = k"
  by (induction k) auto

lemma flat_value_head:
  "CHR ''.'' \<notin> set k \<Longrightarrow> key \<in> set (map fst (flat_value k v)) \<Longrightarrow>
     takeWhile (\<lambda>c. c \<noteq> CHR ''.'') key = k"
  by (cases v) (auto simp: head_segment_leaf head_segment_prefix)

lemma flat_head:
  "dotfree_items d \<Longrightarrow> key \<in> set (map fst (flat d)) \<Longrightarrow>
     takeWhile (\<lambda>c. c \<noteq> CHR ''.'') key \<in> set (map fst d)"
proof (induction d)
  case Nil
  then show ?case by simp
next
  case (Cons a d)
  obtain k v where a: "a = (k, v)" by (cases a)
  from Cons.prems(2) a have "key \<in> set (map fst (flat_value k v)) \<or> key \<in> set (map fst (flat d))"
    by auto
  then show ?case
  proof
    assume "key \<in> set (map fst (flat_value k v))"
    with Cons.prems(1) a have "takeWhile (\<lambda>c. c \<noteq> CHR ''.'') key = k"
      by (intro flat_value_head[of k key v]) auto
    with a show ?thesis by simp
  next
    assume "key \<in> set (map fst (flat d))"
    with Cons a show ?thesis by simp
  qed
qed

lemma keys_prefixed: "map fst (prefixed q e) = map ((@) q) (map fst e)"
  by (induction e) (auto simp: prefixed_def)

lemma distinct_prefixed: "distinct (map fst (prefixed q e)) = distinct (map fst e)"
proof -
  have "inj_on ((@) q) (set (map fst e))" by (rule inj_onI) simp
  then show ?thesis by (simp only: keys_prefixed distinct_map) simp
qed

lemma prefixed_prefixed: "prefixed q (prefixed r e) = prefixed (q @ r) e"
  by (induction e) (auto simp: prefixed_def)

lemma prefixed_append: "prefixed q (a @ b) = prefixed q a @ prefixed q b"
  by (simp add: prefixed_def)

lemma flat_value_Dict: "flat_value k (Dict d) = prefixed (k @ ''.'') (flat d)"
  by (simp add: prefixed_def)

lemma flat_value_Leaf_prefixed: "prefixed q (flat_value k (Leaf x)) = [(q @ k, Leaf x)]"
  by (simp add: prefixed_def)

lemma prefixed_disjoint:
  "set (map fst a) \<inter> set (map fst b) = {} \<Longrightarrow>
     set (map fst (prefixed q a)) \<inter> set (map fst (prefixed q b)) = {}"
  by (auto simp: keys_prefixed)

lemma flat_distinct:
  fixes d :: "'a dict" and v :: "'a nested"
  shows "dotfree_items d \<longrightarrow> distinct (map fst (flat d))"
    and "dotfree_value v \<longrightarrow> distinct (map fst (flat_value k v))"
proof (induction d and k v rule: flat_flat_value.induct)
  case 1
  show ?case by simp
next
  case (2 k v d)
  show ?case
  proof
    assume w: "dotfree_items ((k, v) # d)"
    have "set (map fst (flat_value k v)) \<inter> set (map fst (flat d)) = {}"
    proof (rule ccontr)
      assume "set (map fst (flat_value k v)) \<inter> set (map fst (flat d)) \<noteq> {}"
      then obtain key where k1: "key \<in> set (map fst (flat_value k v))"
        and k2: "key \<in> set (map fst (flat d))" by blast
      from w k1 have "takeWhile (\<lambda>c. c \<noteq> CHR ''.'') key = k"
        by (intro flat_value_head[of k key v]) auto
      moreover from w k2 have "takeWhile (\<lambda>c. c \<noteq> CHR ''.'') key \<in> set (map fst d)"
        by (intro flat_head) auto
      ultimately show False using w by simp
    qed
    with w 2 show "distinct (map fst (flat ((k, v) # d)))" by simp
  qed
next
  case (3 k x)
  show ?case by simp
next
  case (4 k d)
  show ?case
  proof
    assume "dotfree_value (Dict d)"
    with 4 have "distinct (map fst (flat d))" by simp
    then show "distinct (map fst (flat_value k (Dict d)))"
      by (simp only: flat_value_Dict distinct_prefixed)
  qed
qed

lemma flat_disjoint:
  assumes "dotfree_items ((k, v) # d)"
  shows "set (map fst (flat_value k v)) \<inter> set (map fst (flat d)) = {}"
proof -
  from assms have "distinct (map fst (flat ((k, v) # d)))" using flat_distinct(1) by blast
  then show ?thesis by simp
qed

lemma flatten_prefixed:
  fixes d :: "'a dict" and v :: "'a nested"
  shows "dotfree_items d \<longrightarrow> (\<forall>p (acc :: 'a dict). p \<noteq> [] \<longrightarrow>
           set (map fst (prefixed (p @ ''.'') (flat d))) \<inter> set (map fst acc) = {} \<longrightarrow>
           flatten_items d ''.'' p acc = acc @ prefixed (p @ ''.'') (flat d))"
    and "dotfree_value v \<longrightarrow> (\<forall>p (acc :: 'a dict). p \<noteq> [] \<longrightarrow>
           set (map fst (prefixed (p @ ''.'') (flat_value k v))) \<inter> set (map fst acc) = {} \<longrightarrow>
           flatten_value (p @ ''.'' @ k) v ''.'' acc = acc @ prefixed (p @ ''.'') (flat_value k v))"
proof (induction d and k v rule: flat_flat_value.induct)
  case 1
  show ?case by (simp add: prefixed_def)
next
  case (2 k v d)
  show ?case
  proof (intro impI allI)
    fix p and acc :: "'a dict"
    let ?q = "p @ ''.''"
    assume w: "dotfree_items ((k, v) # d)" and p: "p \<noteq> []"
      and fr: "set (map fst (prefixed ?q (flat ((k, v) # d)))) \<inter> set (map fst acc) = {}"
    have fl: "flat ((k, v) # d) = flat_value k v @ flat d" by simp
    from w have wv: "dotfree_value v" and wd: "dotfree_items d" by simp_all
    from fr have fr1: "set (map fst (prefixed ?q (flat_value k v))) \<inter> set (map fst acc) = {}"
      and fr2: "set (map fst (prefixed ?q (flat d))) \<inter> set (map fst acc) = {}"
      unfolding fl prefixed_append by auto
    from 2(1) wv p fr1
    have a: "flatten_value (p @ ''.'' @ k) v ''.'' acc = acc @ prefixed ?q (flat_value k v)"
      by blast
    have dj: "set (map fst (prefixed ?q (flat_value k v))) \<inter> set (map fst (prefixed ?q (flat d))) = {}"
      using flat_disjoint[OF w] by (rule prefixed_disjoint)
    have "set (map fst (prefixed ?q (flat d))) \<inter> set (map fst (acc @ prefixed ?q (flat_value k v))) = {}"
      using fr2 dj by auto
    with 2(2) wd p
    have b: "flatten_items d ''.'' p (acc @ prefixed ?q (flat_value k v)) =
        (acc @ prefixed ?q (flat_value k v)) @ prefixed ?q (flat d)"
      by blast
    have "flatten_items ((k, v) # d) ''.'' p acc =
          flatten_items d ''.'' p (flatten_value (p @ ''.'' @ k) v ''.'' acc)"
      using p by simp
    also have "\<dots> = (acc @ prefixed ?q (flat_value k v)) @ prefixed ?q (flat d)"
      unfolding a b ..
    finally show "flatten_items ((k, v) # d) ''.'' p acc = acc @ prefixed ?q (flat ((k, v) # d))"
      unfolding fl prefixed_append by simp
  qed
next
  case (3 k x)
  show ?case
  proof (intro impI allI)
    fix p and acc :: "'a dict"
    assume fr: "set (map fst (prefixed (p @ ''.'') (flat_value k (Leaf x)))) \<inter> set (map fst acc) = {}"
    then have "p @ ''.'' @ k \<notin> set (map fst acc)"
      unfolding flat_value_Leaf_prefixed by simp
    then have "setitem (p @ ''.'' @ k) (Leaf x) acc = acc @ [(p @ ''.'' @ k, Leaf x)]"
      by (rule setitem_fresh)
    then show "flatten_value (p @ ''.'' @ k) (Leaf x) ''.'' acc =
               acc @ prefixed (p @ ''.'') (flat_value k (Leaf x))"
      unfolding flat_value_Leaf_prefixed by simp
  qed
next
  case (4 k d)
  show ?case
  proof (intro impI allI)
    fix p and acc :: "'a dict"
    let ?q = "p @ ''.'' @ k"
    assume w: "dotfree_value (Dict d)" and p: "p \<noteq> []"
      and fr: "set (map fst (prefixed (p @ ''.'') (flat_value k (Dict d)))) \<inter> set (map fst acc) = {}"
    from w have wd: "dotfree_items d" by simp
    then have dd: "distinct (map fst (flat d))" using flat_distinct(1) by blast
    have q: "?q \<noteq> []" using p by simp
    have e: "prefixed (p @ ''.'') (flat_value k (Dict d)) = prefixed (?q @ ''.'') (flat d)"
      unfolding flat_value_Dict prefixed_prefixed by simp
    have "set (map fst (prefixed (?q @ ''.'') (flat d))) \<inter> set (map fst ([] :: 'a dict)) = {}" by simp
    with 4 wd q have "flatten_items d ''.'' ?q [] = [] @ prefixed (?q @ ''.'') (flat d)"
      by blast
    then have fd: "flatten_dict d ''.'' ?q = prefixed (?q @ ''.'') (flat d)" by simp
    have "distinct (map fst (prefixed (?q @ ''.'') (flat d)))"
      using dd by (simp only: distinct_prefixed)
    moreover have "set (map fst (prefixed (?q @ ''.'') (flat d))) \<inter> set (map fst acc) = {}"
      using fr unfolding e .
    ultimately have "update_dict (prefixed (?q @ ''.'') (flat d)) acc = acc @ prefixed (?q @ ''.'') (flat d)"
      by (rule update_dict_fresh)
    then show "flatten_value (p @ ''.'' @ k) (Dict d) ''.'' acc =
               acc @ prefixed (p @ ''.'') (flat_value k (Dict d))"
      unfolding e using fd by simp
  qed
qed


lemma flatten_value_top:
  assumes w: "dotfree_value v" and k: "is_Dict v \<longrightarrow> k \<noteq> []"
    and fr: "set (map fst (flat_value k v)) \<inter> set (map fst acc) = {}"
  shows "flatten_value k v ''.'' acc = acc @ flat_value k v"
proof (cases v)
  case (Leaf x)
  with fr have "k \<notin> set (map fst acc)" by simp
  then have "setitem k (Leaf x) acc = acc @ [(k, Leaf x)]" by (rule setitem_fresh)
  with Leaf show ?thesis by simp
next
  case (Dict d)
  with w k have wd: "dotfree_items d" and kn: "k \<noteq> []" by simp_all
  have "set (map fst (prefixed (k @ ''.'') (flat d))) \<inter> set (map fst ([] :: 'a dict)) = {}" by simp
  with flatten_prefixed(1)[of d] wd kn
  have "flatten_items d ''.'' k [] = [] @ prefixed (k @ ''.'') (flat d)" by blast
  then have fd: "flatten_dict d ''.'' k = flat_value k (Dict d)"
    unfolding flat_value_Dict by simp
  have "distinct (map fst (flat_value k (Dict d)))"
    using w Dict flat_distinct(2)[of v k] by simp
  moreover have "set (map fst (flat_value k (Dict d))) \<inter> set (map fst acc) = {}"
    using fr Dict by simp
  ultimately have "update_dict (flat_value k (Dict d)) acc = acc @ flat_value k (Dict d)"
    by (rule update_dict_fresh)
  with fd Dict show ?thesis by simp
qed

lemma flatten_items_top:
  "dotfree_items d \<Longrightarrow> list_all (\<lambda>(k, v). is_Dict v \<longrightarrow> k \<noteq> []) d \<Longrightarrow>
   set (map fst (flat d)) \<inter> set (map fst acc) = {} \<Longrightarrow>
   flatten_items d ''.'' [] acc = acc @ flat d"
proof (induction d arbitrary: acc)
  case Nil
  show ?case by simp
next
  case (Cons a d)
  obtain k v where a: "a = (k, v)" by (cases a)
  from Cons.prems a have w: "dotfree_items ((k, v) # d)" by simp
  then have wv: "dotfree_value v" and wd: "dotfree_items d" by simp_all
  from Cons.prems(2) a have kn: "is_Dict v \<longrightarrow> k \<noteq> []"
    and ld: "list_all (\<lambda>(k, v). is_Dict v \<longrightarrow> k \<noteq> []) d" by simp_all
  from Cons.prems(3) a have fr1: "set (map fst (flat_value k v)) \<inter> set (map fst acc) = {}"
    and fr2: "set (map fst (flat d)) \<inter> set (map fst acc) = {}" by auto
  have v: "flatten_value k v ''.'' acc = acc @ flat_value k v"
    using wv kn fr1 by (rule flatten_value_top)
  have "set (map fst (flat d)) \<inter> set (map fst (acc @ flat_value k v)) = {}"
    using fr2 flat_disjoint[OF w] by auto
  with Cons.IH[OF wd ld] have "flatten_items d ''.'' [] (acc @ flat_value k v) = (acc @ flat_value k v) @ flat d"
    by blast
  with v a show ?case by simp
qed

subsection \<open>The round trip\<close>

lemma dotfree_distinct: "dotfree_items d \<Longrightarrow> distinct (map fst d)"
proof (induction d)
  case Nil
  show ?case by simp
next
  case (Cons a d)
  obtain k v where a: "a = (k, v)" by (cases a)
  with Cons show ?case by simp
qed

lemma getitem_distinct: "distinct (map fst d) \<Longrightarrow> (k, v) \<in> set d \<Longrightarrow> getitem d k = Some v"
  by (induction d) (auto simp: rev_image_eqI)

lemma py_eq_refl:
  fixes d :: "'a dict" and v :: "'a nested"
  shows "dotfree_items d \<longrightarrow> list_all (\<lambda>kv. py_eq (snd kv) (snd kv)) d"
    and "dotfree_value v \<longrightarrow> py_eq v v"
proof (induction d and v rule: dotfree_items_dotfree_value.induct)
  case 1
  show ?case by simp
next
  case (2 k v d)
  then show ?case by simp
next
  case (3 x)
  show ?case by simp
next
  case (4 d)
  show ?case
  proof
    assume w: "dotfree_value (Dict d)"
    then have dd: "distinct (map fst d)" by (simp add: dotfree_distinct)
    from w 4 have a: "list_all (\<lambda>kv. py_eq (snd kv) (snd kv)) d" by simp
    have "list_all (\<lambda>kv. case getitem d (fst kv) of None \<Rightarrow> False | Some w \<Rightarrow> py_eq (snd kv) w) d"
      unfolding list_all_iff
    proof
      fix kv assume m: "kv \<in> set d"
      then have "getitem d (fst kv) = Some (snd kv)"
        using getitem_distinct[OF dd, of "fst kv" "snd kv"] by simp
      moreover from a m have "py_eq (snd kv) (snd kv)" by (simp add: list_all_iff)
      ultimately show "case getitem d (fst kv) of None \<Rightarrow> False | Some w \<Rightarrow> py_eq (snd kv) w"
        by simp
    qed
    then show "py_eq (Dict d) (Dict d)" by simp
  qed
qed

text \<open>
  Claim C2, amended. For every nested mapping in which no key holds the separator \<^verbatim>\<open>'.'\<close>,
  no value is an empty mapping and no top-level key of a sub-mapping is the empty string,
  nesting the flattening gives the mapping back, entry for entry and in the same order, so
  the result is equal to it under \<^verbatim>\<open>==\<close>. It gives it back in whatever store the leaves of the
  mapping live: the result is a new dict, its sub-mappings are new dicts, each leaf is the
  object that the mapping holds, and no object of the caller is written to. Whether a key
  ends in \<^verbatim>\<open>grid_search\<close> plays no part: neither function looks at it.
\<close>

theorem nest_flatten_roundtrip:
  assumes "dotfree_items m" and "list_all (\<lambda>(k, v). is_Dict v \<longrightarrow> k \<noteq> []) m"
    and "flatten_dict m ''.'' [] = map (\<lambda>(k, a). (k, Leaf a)) items"
  shows "\<exists>h'. nest_dict items ''.'' h = Inr (h', length h) \<and>
           stored (length h) h' (length h) (Dict m) \<and> take (length h) h' = h \<and>
           py_eq (Dict m) (Dict m)"
proof -
  let ?n = "length h"
  let ?h0 = "h @ [CDict []]"
  have "flatten_items m ''.'' [] [] = [] @ flat m"
    using assms(1,2) by (intro flatten_items_top) auto
  then have f: "flatten_dict m ''.'' [] = flat m" by simp
  with assms(3) have "leaf_refs (flat m) = leaf_refs (map (\<lambda>(k, a). (k, Leaf a)) items)" by simp
  then have i: "leaf_refs (flat m) = items" by (simp only: leaf_refs_leaves)
  have u: "map (\<lambda>(key, a). (under_path [] key, a)) items = items" by simp
  have p: "path ?h0 ?n [] ?n" by simp
  have c: "cell_at ?h0 ?n = Some (CDict [])" by (simp add: cell_at_append)
  have d: "set (map fst m) \<inter> set (map fst ([] :: (string \<times> nat) list)) = {}" by simp
  have l: "list_all (\<lambda>k. CHR ''.'' \<notin> set k) ([] :: string list)" by simp
  from nest_flat_store(1)[of m] assms(1) l p c d obtain h' es' where
    n: "nest_items (map (\<lambda>(key, a). (under_path [] key, a)) (leaf_refs (flat m))) ?n ''.'' ?h0 = Inr h'"
    and c': "cell_at h' ?n = Some (CDict ([] @ es'))"
    and s: "stored_items (length ?h0) h' es' m" and le: "length ?h0 \<le> length h'"
    and fr: "\<forall>b < length ?h0. b \<noteq> ?n \<longrightarrow> cell_at h' b = cell_at ?h0 b"
    by blast
  from n i u have "nest_items items ?n ''.'' ?h0 = Inr h'" by simp
  then have r: "nest_dict items ''.'' h = Inr (h', ?n)" by (simp add: nest_dict_def Let_def)
  have "stored_items ?n h' es' m" using s by (rule stored_mono(2)) simp
  with c' have st: "stored ?n h' ?n (Dict m)" by simp
  have t: "take ?n h' = h"
  proof (rule nth_equalityI)
    from le show "length (take ?n h') = length h" by simp
  next
    fix j assume "j < length (take ?n h')"
    then have j: "j < ?n" by simp
    with fr have "cell_at h' j = cell_at ?h0 j" by simp
    with j le have "h' ! j = h ! j" by (simp add: cell_at_def nth_append)
    with j show "take ?n h' ! j = h ! j" by simp
  qed
  have "dotfree_value (Dict m) \<or> m = []" using assms(1) by auto
  then have e: "py_eq (Dict m) (Dict m)"
  proof
    assume "dotfree_value (Dict m)"
    then show ?thesis using py_eq_refl(2)[of "Dict m"] by blast
  next
    assume "m = []"
    then show ?thesis by simp
  qed
  from r st t e show ?thesis by blast
qed

theorem nest_flatten_roundtrip_witness:
  "dotfree_items [(''a'', Dict [(''b'', Leaf (0::nat)), (''c'', Dict [(''d'', Leaf 1)])]), (''e'', Leaf 2)]
   \<and> list_all (\<lambda>(k, v). is_Dict v \<longrightarrow> k \<noteq> [])
        [(''a'', Dict [(''b'', Leaf (0::nat)), (''c'', Dict [(''d'', Leaf 1)])]), (''e'', Leaf 2)]
   \<and> flatten_dict [(''a'', Dict [(''b'', Leaf (0::nat)), (''c'', Dict [(''d'', Leaf 1)])]), (''e'', Leaf 2)] ''.'' []
       = map (\<lambda>(k, a). (k, Leaf a)) [(''a.b'', 0), (''a.c.d'', 1), (''e'', 2)]
   \<and> nest_dict [(''a.b'', 0), (''a.c.d'', 1), (''e'', 2)] ''.'' [CLeaf (10::nat), CLeaf 20, CLeaf 30]
       = Inr ([CLeaf 10, CLeaf 20, CLeaf 30,
               CDict [(''a'', 4), (''e'', 2)], CDict [(''b'', 0), (''c'', 5)], CDict [(''d'', 1)]], 3)
   \<and> stored 3 [CLeaf (10::nat), CLeaf 20, CLeaf 30,
               CDict [(''a'', 4), (''e'', 2)], CDict [(''b'', 0), (''c'', 5)], CDict [(''d'', 1)]] 3
        (Dict [(''a'', Dict [(''b'', Leaf 0), (''c'', Dict [(''d'', Leaf 1)])]), (''e'', Leaf 2)])"
proof -
  let ?m = "[(''a'', Dict [(''b'', Leaf (0::nat)), (''c'', Dict [(''d'', Leaf 1)])]), (''e'', Leaf 2)]"
  let ?items = "[(''a.b'', 0::nat), (''a.c.d'', 1), (''e'', 2)]"
  let ?h = "[CLeaf (10::nat), CLeaf 20, CLeaf 30]"
  let ?h' = "[CLeaf (10::nat), CLeaf 20, CLeaf 30,
               CDict [(''a'', 4), (''e'', 2)], CDict [(''b'', 0), (''c'', 5)], CDict [(''d'', 1)]]"
  have w: "dotfree_items ?m" by simp
  have t: "list_all (\<lambda>(k, v). is_Dict v \<longrightarrow> k \<noteq> []) ?m" by simp
  have f: "flatten_dict ?m ''.'' [] = map (\<lambda>(k, a). (k, Leaf a)) ?items" by code_simp
  have n: "nest_dict ?items ''.'' ?h = Inr (?h', 3)" by code_simp
  from nest_flatten_roundtrip[OF w t f, of ?h] obtain h' where
    "nest_dict ?items ''.'' ?h = Inr (h', length ?h)" and s: "stored (length ?h) h' (length ?h) (Dict ?m)"
    by blast
  with n have "h' = ?h'" by simp
  with s have "stored (length ?h) ?h' (length ?h) (Dict ?m)" by (simp only:)
  moreover have "length ?h = 3" by simp
  ultimately have "stored 3 ?h' 3 (Dict ?m)" by (simp only:)
  with w t f n show ?thesis by simp
qed

text \<open>
  Claim C2 as stated fails on a mapping that holds an empty sub-mapping: flattening drops
  the key \<^verbatim>\<open>a\<close>, and nesting cannot bring it back: the result holds \<^verbatim>\<open>b\<close> only. No key of this
  mapping ends in \<^verbatim>\<open>grid_search\<close>.
\<close>

theorem nest_flatten_empty_mapping:
  "flatten_dict [(''a'', Dict []), (''b'', Leaf (0::nat))] ''.'' [] = [(''b'', Leaf 0)]
   \<and> nest_dict [(''b'', 0)] ''.'' [CLeaf (1::nat)] = Inr ([CLeaf 1, CDict [(''b'', 0)]], 1)
   \<and> stored 1 [CLeaf (1::nat), CDict [(''b'', 0)]] 1 (Dict [(''b'', Leaf 0)])
   \<and> \<not> py_eq (Dict [(''b'', Leaf 0)]) (Dict [(''a'', Dict []), (''b'', Leaf (0::nat))])"
  by code_simp

text \<open>
  It fails as well on a key that holds the separator, which comes back as a path, and on an
  empty top-level key of a sub-mapping, which flattening leaves out of the path.
\<close>

lemma nest_flatten_other_failures:
  "flatten_dict [(''a.b'', Leaf (0::nat))] ''.'' [] = [(''a.b'', Leaf 0)]"
  "nest_dict [(''a.b'', 0)] ''.'' [CLeaf (1::nat)] = Inr ([CLeaf 1, CDict [(''a'', 2)], CDict [(''b'', 0)]], 1)"
  "flatten_dict [([], Dict [(''a'', Leaf (0::nat))])] ''.'' [] = [(''a'', Leaf 0)]"
  "nest_dict [(''a'', 0)] ''.'' [CLeaf (1::nat)] = Inr ([CLeaf 1, CDict [(''a'', 0)]], 1)"
  by code_simp+

subsection \<open>Conflicting keys in nest_dict\<close>

lemma leaf_fails:
  assumes "cell_at h a = Some (CLeaf x)"
  shows "\<exists>e. nest_dict_rec k w a ''.'' h = Inl e \<and> (e = TypeError \<or> e = AttributeError)"
proof (cases "split_once ''.'' k")
  case None
  with assms show ?thesis by (simp add: nest_single setitem_obj_def)
next
  case (Some ab)
  obtain k1 rest where "ab = (k1, rest)" by (cases ab)
  with Some assms show ?thesis by (simp add: nest_path setdefault_obj_def)
qed

lemma leaf_then_deeper:
  assumes "cell_at h v = Some (CLeaf x)" and "nest_dict_rec p v out ''.'' h = Inr h'"
  shows "\<exists>e. nest_dict_rec (p @ CHR ''.'' # r) w out ''.'' h' = Inl e \<and> (e = TypeError \<or> e = AttributeError)"
  using assms
proof (induction "length p" arbitrary: p out h rule: less_induct)
  case less
  from less.prems(2) have ev: "evolves v h h'" by (rule nest_dict_rec_evolves)
  with less.prems(1) have lv: "cell_at h' v = Some (CLeaf x)" by (simp add: evolves_def)
  show ?case
  proof (cases "split_once ''.'' p")
    case None
    then have sp: "split_once ''.'' (p @ CHR ''.'' # r) = Some (p, r)" by (simp add: split_once_extend)
    from less.prems(2) None have si: "setitem_obj h out p v = Inr h'" by (simp add: nest_single)
    show ?thesis
    proof (cases "cell_at h out")
      case None
      with si show ?thesis by (simp add: setitem_obj_def)
    next
      case (Some c)
      show ?thesis
      proof (cases c)
        case (CLeaf y)
        with Some si show ?thesis by (simp add: setitem_obj_def)
      next
        case (CDict es)
        with Some si have h': "h' = h[out := CDict (setitem p v es)]" by (simp add: setitem_obj_def)
        from Some have "out < length h" by (rule cell_at_length)
        with h' have "cell_at h' out = Some (CDict (setitem p v es))" by (simp add: cell_at_update)
        then have "setdefault_obj h' out p = Inr (h', v)"
          by (simp add: setdefault_obj_def getitem_setitem)
        then have "nest_dict_rec (p @ CHR ''.'' # r) w out ''.'' h' = nest_dict_rec r w v ''.'' h'"
          by (simp add: nest_path[OF sp])
        with leaf_fails[OF lv, of r w] show ?thesis by simp
      next
        case (CInst es)
        with Some si have h': "h' = h[out := CInst (setitem p v es)]" by (simp add: setitem_obj_def)
        from Some have "out < length h" by (rule cell_at_length)
        with h' have "cell_at h' out = Some (CInst (setitem p v es))" by (simp add: cell_at_update)
        then have "setdefault_obj h' out p = Inl AttributeError" by (simp add: setdefault_obj_def)
        then show ?thesis by (simp add: nest_path[OF sp])
      qed
    qed
  next
    case (Some ab)
    obtain k1 rest where ab: "ab = (k1, rest)" by (cases ab)
    with Some have s: "split_once ''.'' p = Some (k1, rest)" by simp
    then have l: "length rest < length p" by (auto dest: split_once_shorter)
    from s have sp: "split_once ''.'' (p @ CHR ''.'' # r) = Some (k1, rest @ CHR ''.'' # r)"
      by (simp add: split_once_extend)
    from less.prems(2) s obtain h1 sub where d: "setdefault_obj h out k1 = Inr (h1, sub)"
      and n: "nest_dict_rec rest v sub ''.'' h1 = Inr h'"
      by (auto simp: nest_path split: sum.splits)
    from d have e1: "evolves v h h1" by (rule setdefault_obj_evolves)
    with less.prems(1) have l1: "cell_at h1 v = Some (CLeaf x)" by (simp add: evolves_def)
    from less.hyps[OF l l1 n]
    have ih: "\<exists>e. nest_dict_rec (rest @ CHR ''.'' # r) w sub ''.'' h' = Inl e \<and> (e = TypeError \<or> e = AttributeError)" .
    from d obtain es1 where c1: "cell_at h1 out = Some (CDict es1)" and g1: "getitem es1 k1 = Some sub"
      by (auto simp: setdefault_obj_def cell_at_update cell_at_append getitem_append_new
            dest: cell_at_length split: option.splits cell.splits)
    from n have "evolves v h1 h'" by (rule nest_dict_rec_evolves)
    with c1 g1 obtain es' where c': "cell_at h' out = Some (CDict es')"
      and g': "getitem es' k1 = Some sub \<or> getitem es' k1 = Some v"
      unfolding evolves_def by blast
    from g' show ?thesis
    proof
      assume "getitem es' k1 = Some sub"
      with c' have "setdefault_obj h' out k1 = Inr (h', sub)" by (simp add: setdefault_obj_def)
      then have "nest_dict_rec (p @ CHR ''.'' # r) w out ''.'' h' =
                 nest_dict_rec (rest @ CHR ''.'' # r) w sub ''.'' h'"
        by (simp add: nest_path[OF sp])
      with ih show ?thesis by simp
    next
      assume "getitem es' k1 = Some v"
      with c' have "setdefault_obj h' out k1 = Inr (h', v)" by (simp add: setdefault_obj_def)
      then have "nest_dict_rec (p @ CHR ''.'' # r) w out ''.'' h' =
                 nest_dict_rec (rest @ CHR ''.'' # r) w v ''.'' h'"
        by (simp add: nest_path[OF sp])
      with leaf_fails[OF lv, of "rest @ CHR ''.'' # r" w] show ?thesis by simp
    qed
  qed
qed


lemma nest_items_evolves_leaf:
  "nest_items items out ''.'' h = Inr h' \<Longrightarrow> cell_at h a = Some (CLeaf x) \<Longrightarrow>
     cell_at h' a = Some (CLeaf x)"
proof (induction items arbitrary: h)
  case Nil
  then show ?case by simp
next
  case (Cons i items)
  obtain k v where i: "i = (k, v)" by (cases i)
  with Cons.prems(1) obtain h1 where n: "nest_dict_rec k v out ''.'' h = Inr h1"
    and r: "nest_items items out ''.'' h1 = Inr h'" by (auto split: sum.splits)
  from n have "evolves v h h1" by (rule nest_dict_rec_evolves)
  with Cons.prems(2) have "cell_at h1 a = Some (CLeaf x)" by (simp add: evolves_def)
  with r show ?case by (rule Cons.IH)
qed

lemma nest_items_evolves_dict:
  "nest_items items out ''.'' h = Inr h' \<Longrightarrow> cell_at h a = Some (CDict es) \<Longrightarrow>
     \<exists>es'. cell_at h' a = Some (CDict es')"
proof (induction items arbitrary: h es)
  case Nil
  then show ?case by simp
next
  case (Cons i items)
  obtain k v where i: "i = (k, v)" by (cases i)
  with Cons.prems(1) obtain h1 where n: "nest_dict_rec k v out ''.'' h = Inr h1"
    and r: "nest_items items out ''.'' h1 = Inr h'" by (auto split: sum.splits)
  from n have "evolves v h h1" by (rule nest_dict_rec_evolves)
  with Cons.prems(2) obtain es1 where "cell_at h1 a = Some (CDict es1)"
    unfolding evolves_def by blast
  with r show ?case by (rule Cons.IH)
qed

lemma leaf_then_deeper_items:
  assumes v: "cell_at h v = Some (CLeaf x)"
  shows "\<exists>e. nest_items (pre @ (p, v) # (p @ CHR ''.'' # r, w) # post) out ''.'' h = Inl e \<and>
           (e = TypeError \<or> e = AttributeError)"
proof (cases "nest_items (pre @ (p, v) # (p @ CHR ''.'' # r, w) # post) out ''.'' h")
  case (Inl e)
  then show ?thesis by (auto dest: nest_items_error_kind)
next
  case (Inr h')
  then obtain h1 where a: "nest_items pre out ''.'' h = Inr h1"
    and b: "nest_items ((p, v) # (p @ CHR ''.'' # r, w) # post) out ''.'' h1 = Inr h'"
    by (auto simp: nest_items_append split: sum.splits)
  from a v have v1: "cell_at h1 v = Some (CLeaf x)" by (rule nest_items_evolves_leaf)
  from b obtain h2 where c: "nest_dict_rec p v out ''.'' h1 = Inr h2"
    and d: "nest_items ((p @ CHR ''.'' # r, w) # post) out ''.'' h2 = Inr h'"
    by (auto split: sum.splits)
  from leaf_then_deeper[OF v1 c, of r w] d show ?thesis by auto
qed

lemma setitem_set: "set (setitem k v es) \<subseteq> insert (k, v) (set es)"
  by (induction es) (auto split: if_splits)

lemma getitem_mem: "getitem es k = Some a \<Longrightarrow> (k, a) \<in> set es"
  by (induction es) (auto split: if_splits)

lemma setitem_obj_unref:
  assumes "unref res h" and "v \<noteq> res" and "setitem_obj h out k v = Inr h'"
  shows "unref res h' \<and> length h' = length h \<and> (out \<noteq> res \<longrightarrow> cell_at h' res = cell_at h res)"
proof -
  have s: "\<And>es. res \<notin> snd ` set es \<Longrightarrow> res \<notin> snd ` set (setitem k v es)"
    using setitem_set[of k v] assms(2) by fastforce
  from assms(3) show ?thesis
  proof (cases "cell_at h out")
    case None
    with assms(3) show ?thesis by (simp add: setitem_obj_def)
  next
    case (Some c)
    show ?thesis
    proof (cases c)
      case (CLeaf y)
      with Some assms(3) show ?thesis by (simp add: setitem_obj_def)
    next
      case (CDict es)
      with Some assms(3) have h': "h' = h[out := CDict (setitem k v es)]" by (simp add: setitem_obj_def)
      from assms(1) Some CDict have "res \<notin> snd ` set es" unfolding unref_def by blast
      then have "res \<notin> snd ` set (setitem k v es)" by (rule s)
      with assms(1) h' show ?thesis unfolding unref_def
        by (auto simp: cell_at_update split: if_splits)
    next
      case (CInst es)
      with Some assms(3) have h': "h' = h[out := CInst (setitem k v es)]" by (simp add: setitem_obj_def)
      from assms(1) Some CInst have "res \<notin> snd ` set es" unfolding unref_def by blast
      then have "res \<notin> snd ` set (setitem k v es)" by (rule s)
      with assms(1) h' show ?thesis unfolding unref_def
        by (auto simp: cell_at_update split: if_splits)
    qed
  qed
qed

lemma setdefault_obj_unref:
  assumes "unref res h" and "res < length h" and "setdefault_obj h out k = Inr (h', sub)"
  shows "unref res h' \<and> res < length h' \<and> sub \<noteq> res \<and> (out \<noteq> res \<longrightarrow> cell_at h' res = cell_at h res)"
proof -
  from assms(3) obtain es where c: "cell_at h out = Some (CDict es)"
    by (auto simp: setdefault_obj_def split: option.splits cell.splits)
  from assms(1) c have nr: "res \<notin> snd ` set es" unfolding unref_def by blast
  show ?thesis
  proof (cases "getitem es k")
    case (Some a)
    with c assms(3) have "h' = h" and "sub = a" by (simp_all add: setdefault_obj_def)
    moreover from Some have "(k, a) \<in> set es" by (rule getitem_mem)
    with nr have "a \<noteq> res" by force
    ultimately show ?thesis using assms(1,2) by simp
  next
    case None
    with c assms(3) have h': "h' = h[out := CDict (es @ [(k, length h)])] @ [CDict []]"
      and sub: "sub = length h" by (auto simp: setdefault_obj_def)
    from nr assms(2) have "res \<notin> snd ` set (es @ [(k, length h)])" by auto
    with assms(1,2) h' have "unref res h'" unfolding unref_def
      by (auto simp: cell_at_update cell_at_append split: if_splits)
    with h' sub assms(2) show ?thesis by (auto simp: cell_at_update cell_at_append)
  qed
qed

lemma nest_dict_rec_unref:
  assumes "unref res h" and "res < length h" and "v \<noteq> res"
    and "nest_dict_rec k v out ''.'' h = Inr h'"
  shows "unref res h' \<and> res < length h' \<and> (out \<noteq> res \<longrightarrow> cell_at h' res = cell_at h res)"
  using assms
proof (induction "length k" arbitrary: k out h rule: less_induct)
  case less
  show ?case
  proof (cases "split_once ''.'' k")
    case None
    with less.prems(4) have "setitem_obj h out k v = Inr h'" by (simp add: nest_single)
    from setitem_obj_unref[OF less.prems(1,3) this] less.prems(2) show ?thesis by simp
  next
    case (Some ab)
    obtain k1 rest where ab: "ab = (k1, rest)" by (cases ab)
    with Some have s: "split_once ''.'' k = Some (k1, rest)" by simp
    then have l: "length rest < length k" by (auto dest: split_once_shorter)
    from less.prems(4) s obtain h1 sub where d: "setdefault_obj h out k1 = Inr (h1, sub)"
      and n: "nest_dict_rec rest v sub ''.'' h1 = Inr h'"
      by (auto simp: nest_path split: sum.splits)
    from setdefault_obj_unref[OF less.prems(1,2) d]
    have u1: "unref res h1" and r1: "res < length h1" and sr: "sub \<noteq> res"
      and c1: "out \<noteq> res \<longrightarrow> cell_at h1 res = cell_at h res" by simp_all
    from less.hyps[OF l u1 r1 less.prems(3) n] sr
    have "unref res h'" and "res < length h'" and "cell_at h' res = cell_at h1 res" by simp_all
    with c1 show ?thesis by simp
  qed
qed

lemma nest_items_unref:
  "unref res h \<Longrightarrow> res < length h \<Longrightarrow> \<forall>(k, a) \<in> set items. a \<noteq> res \<Longrightarrow>
   nest_items items out ''.'' h = Inr h' \<Longrightarrow> unref res h' \<and> res < length h'"
proof (induction items arbitrary: h)
  case Nil
  then show ?case by simp
next
  case (Cons i items)
  obtain k v where i: "i = (k, v)" by (cases i)
  with Cons.prems(4) obtain h1 where n: "nest_dict_rec k v out ''.'' h = Inr h1"
    and r: "nest_items items out ''.'' h1 = Inr h'" by (auto split: sum.splits)
  from Cons.prems(3) i have v: "v \<noteq> res" and rest: "\<forall>(k, a) \<in> set items. a \<noteq> res" by auto
  from nest_dict_rec_unref[OF Cons.prems(1,2) v n] have "unref res h1" and "res < length h1" by simp_all
  from Cons.IH[OF this rest r] show ?case .
qed

lemma wf_store_unref:
  assumes "wf_store h"
  shows "unref (length h) (h @ [CDict []])"
  unfolding unref_def
proof (intro allI impI)
  fix a es
  assume c: "cell_at (h @ [CDict []]) a = Some (CDict es) \<or> cell_at (h @ [CDict []]) a = Some (CInst es)"
  show "length h \<notin> snd ` set es"
  proof (cases "a = length h")
    case True
    with c show ?thesis by (simp add: cell_at_append)
  next
    case False
    with c have c': "cell_at h a = Some (CDict es) \<or> cell_at h a = Some (CInst es)"
      by (simp add: cell_at_append)
    then have a: "a < length h" by (auto dest: cell_at_length)
    then have "h ! a \<in> set h" by simp
    with assms have "refs_below (length h) (h ! a)" by (simp add: wf_store_def list_all_iff)
    moreover from c' a have "h ! a = CDict es \<or> h ! a = CInst es" by (simp add: cell_at_def)
    ultimately have "list_all (\<lambda>(k, b). b < length h) es" by auto
    then show ?thesis by (auto simp: list_all_iff)
  qed
qed

lemma none_fails:
  assumes "cell_at h a = None"
  shows "\<exists>e. nest_dict_rec k w a ''.'' h = Inl e"
proof (cases "split_once ''.'' k")
  case None
  with assms show ?thesis by (simp add: nest_single setitem_obj_def)
next
  case (Some ab)
  obtain k1 rest where "ab = (k1, rest)" by (cases ab)
  with Some assms show ?thesis by (simp add: nest_path setdefault_obj_def)
qed

lemma deeper_then_leaf:
  assumes p: "CHR ''.'' \<notin> set p" and wf: "wf_store h"
    and below: "\<forall>(k, a) \<in> set (pre @ [(p @ CHR ''.'' # r, w)]). a < length h"
    and n: "nest_dict (pre @ [(p @ CHR ''.'' # r, w)]) ''.'' h = Inr (h1, res)"
  shows "\<exists>es sub. cell_at h1 res = Some (CDict es) \<and> getitem es p = Some sub \<and>
           (\<exists>fs. cell_at h1 sub = Some (CDict fs) \<or> cell_at h1 sub = Some (CInst fs)) \<and>
           nest_dict (pre @ [(p @ CHR ''.'' # r, w), (p, v)]) ''.'' h =
             Inr (h1[res := CDict (setitem p v es)], res)"
proof -
  let ?h0 = "h @ [CDict []]"
  from n have res: "res = length h" and n1: "nest_items (pre @ [(p @ CHR ''.'' # r, w)]) res ''.'' ?h0 = Inr h1"
    by (auto simp: nest_dict_def Let_def split: sum.splits)
  from n1 obtain ha where a: "nest_items pre res ''.'' ?h0 = Inr ha"
    and b: "nest_dict_rec (p @ CHR ''.'' # r) w res ''.'' ha = Inr h1"
    by (auto simp: nest_items_append split: sum.splits)
  have u0: "unref res ?h0" using wf res by (simp add: wf_store_unref)
  have r0: "res < length ?h0" using res by simp
  from below res have pr: "\<forall>(k, a) \<in> set pre. a \<noteq> res" and wr: "w \<noteq> res" by auto
  from nest_items_unref[OF u0 r0 pr a] have ua: "unref res ha" and ra: "res < length ha" by simp_all
  have "cell_at ?h0 res = Some (CDict [])" using res by (simp add: cell_at_append)
  with a obtain esa where ca: "cell_at ha res = Some (CDict esa)" by (auto dest: nest_items_evolves_dict)
  have sp: "split_once ''.'' (p @ CHR ''.'' # r) = Some (p, r)" using p by (rule split_once_dotfree)
  from b obtain hb sub where d: "setdefault_obj ha res p = Inr (hb, sub)"
    and c: "nest_dict_rec r w sub ''.'' hb = Inr h1"
    by (auto simp: nest_path[OF sp] split: sum.splits)
  from d ca obtain es where cb: "cell_at hb res = Some (CDict es)" and g: "getitem es p = Some sub"
    by (auto simp: setdefault_obj_def cell_at_update cell_at_append getitem_append_new
          dest: cell_at_length split: option.splits)
  from setdefault_obj_unref[OF ua ra d] have ub: "unref res hb" and rb: "res < length hb"
    and sr: "sub \<noteq> res" by simp_all
  from nest_dict_rec_unref[OF ub rb wr c] sr have c1: "cell_at h1 res = cell_at hb res" by simp
  with cb have r1: "cell_at h1 res = Some (CDict es)" by simp
  have "\<exists>fs. cell_at hb sub = Some (CDict fs) \<or> cell_at hb sub = Some (CInst fs)"
  proof (cases "cell_at hb sub")
    case None
    from none_fails[OF this, of r w] c show ?thesis by auto
  next
    case (Some cl)
    show ?thesis
    proof (cases cl)
      case (CLeaf y)
      with Some have "cell_at hb sub = Some (CLeaf y)" by simp
      from leaf_fails[OF this, of r w] c show ?thesis by auto
    qed (use Some in auto)
  qed
  moreover from c have "evolves w hb h1" by (rule nest_dict_rec_evolves)
  ultimately have k1: "\<exists>fs. cell_at h1 sub = Some (CDict fs) \<or> cell_at h1 sub = Some (CInst fs)"
    unfolding evolves_def by blast
  have sn: "split_once ''.'' p = None" using p by (rule split_once_None)
  from r1 have "nest_dict_rec p v res ''.'' h1 = Inr (h1[res := CDict (setitem p v es)])"
    by (simp add: nest_single[OF sn] setitem_obj_def)
  with n1 have "nest_items ((pre @ [(p @ CHR ''.'' # r, w)]) @ [(p, v)]) res ''.'' ?h0 =
      Inr (h1[res := CDict (setitem p v es)])"
    by (simp only: nest_items_append) simp
  then have "nest_dict (pre @ [(p @ CHR ''.'' # r, w), (p, v)]) ''.'' h =
      Inr (h1[res := CDict (setitem p v es)], res)"
    using res by (simp add: nest_dict_def Let_def)
  with r1 g k1 show ?thesis by blast
qed

text \<open>
  Claim C9, amended. \<^verbatim>\<open>nest_dict\<close> has no check for conflicting keys and no PathConflictError.
  When a key \<open>p\<close> whose value is an object without item assignment (a number, a string, None)
  is directly followed by a key \<open>p.r\<close>, nesting with the default separator fails with the
  TypeError or the AttributeError that this object raises, whatever the store holds and
  whatever keys come before and after. When a key \<open>p.r\<close> is directly followed by the key \<open>p\<close>
  without a dot, in a well-formed store, nesting does not fail there: what it returns is what
  it returns without \<open>p\<close>, but for the entry \<open>p\<close> of the result, which held the dict or the
  instance that \<open>p.r\<close> was written into and now holds the value of \<open>p\<close>.
\<close>

theorem nest_conflict:
  "(cell_at h v = Some (CLeaf x) \<longrightarrow>
      (\<exists>e. nest_dict (pre @ (p, v) # (p @ ''.'' @ r, w) # post) ''.'' h = Inl e \<and>
            (e = TypeError \<or> e = AttributeError)))
   \<and> (CHR ''.'' \<notin> set p \<and> wf_store h \<and>
      (\<forall>(k, a) \<in> set (pre @ [(p @ ''.'' @ r, w)]). a < length h) \<and>
      nest_dict (pre @ [(p @ ''.'' @ r, w)]) ''.'' h = Inr (h1, res) \<longrightarrow>
        (\<exists>es sub. cell_at h1 res = Some (CDict es) \<and> getitem es p = Some sub \<and>
           (\<exists>fs. cell_at h1 sub = Some (CDict fs) \<or> cell_at h1 sub = Some (CInst fs)) \<and>
           nest_dict (pre @ [(p @ ''.'' @ r, w), (p, v)]) ''.'' h =
             Inr (h1[res := CDict (setitem p v es)], res)))"
proof (intro conjI impI)
  assume v: "cell_at h v = Some (CLeaf x)"
  then have "v < length h" by (rule cell_at_length)
  with v have "cell_at (h @ [CDict []]) v = Some (CLeaf x)" by (simp add: cell_at_append)
  from leaf_then_deeper_items[OF this, of pre p r w post "length h"]
  show "\<exists>e. nest_dict (pre @ (p, v) # (p @ ''.'' @ r, w) # post) ''.'' h = Inl e \<and>
            (e = TypeError \<or> e = AttributeError)"
    by (auto simp: nest_dict_def Let_def)
next
  assume a: "CHR ''.'' \<notin> set p \<and> wf_store h \<and>
      (\<forall>(k, a) \<in> set (pre @ [(p @ ''.'' @ r, w)]). a < length h) \<and>
      nest_dict (pre @ [(p @ ''.'' @ r, w)]) ''.'' h = Inr (h1, res)"
  then have p: "CHR ''.'' \<notin> set p" and wf: "wf_store h"
    and b: "\<forall>(k, a) \<in> set (pre @ [(p @ CHR ''.'' # r, w)]). a < length h"
    and n: "nest_dict (pre @ [(p @ CHR ''.'' # r, w)]) ''.'' h = Inr (h1, res)" by simp_all
  from deeper_then_leaf[OF p wf b n, of v]
  show "\<exists>es sub. cell_at h1 res = Some (CDict es) \<and> getitem es p = Some sub \<and>
           (\<exists>fs. cell_at h1 sub = Some (CDict fs) \<or> cell_at h1 sub = Some (CInst fs)) \<and>
           nest_dict (pre @ [(p @ ''.'' @ r, w), (p, v)]) ''.'' h =
             Inr (h1[res := CDict (setitem p v es)], res)"
    by simp
qed

theorem nest_conflict_witness:
  "cell_at [CLeaf (1::nat), CLeaf 2] 0 = Some (CLeaf 1)
   \<and> nest_dict [(''a'', 0), (''a.b'', 1)] ''.'' [CLeaf (1::nat), CLeaf 2] = Inl TypeError
   \<and> nest_dict [(''a'', 0), (''a.b.c'', 1)] ''.'' [CLeaf (1::nat), CLeaf 2] = Inl AttributeError
   \<and> CHR ''.'' \<notin> set ''a'' \<and> wf_store [CLeaf (1::nat), CLeaf 2]
   \<and> nest_dict [(''a.b'', 1)] ''.'' [CLeaf (1::nat), CLeaf 2]
       = Inr ([CLeaf 1, CLeaf 2, CDict [(''a'', 3)], CDict [(''b'', 1)]], 2)
   \<and> nest_dict [(''a.b'', 1), (''a'', 0)] ''.'' [CLeaf (1::nat), CLeaf 2]
       = Inr ([CLeaf 1, CLeaf 2, CDict [(''a'', 0)], CDict [(''b'', 1)]], 2)"
proof -
  let ?h = "[CLeaf (1::nat), CLeaf 2]"
  let ?h1 = "[CLeaf (1::nat), CLeaf 2, CDict [(''a'', 3)], CDict [(''b'', 1)]]"
  have c: "cell_at ?h 0 = Some (CLeaf 1)" by (simp add: cell_at_def)
  have t1: "nest_dict [(''a'', 0), (''a.b'', 1)] ''.'' ?h = Inl TypeError" by code_simp
  have t2: "nest_dict [(''a'', 0), (''a.b.c'', 1)] ''.'' ?h = Inl AttributeError" by code_simp
  have p: "CHR ''.'' \<notin> set ''a''" by simp
  have wf: "wf_store ?h" by (simp add: wf_store_def)
  have b: "\<forall>(k, a) \<in> set ([] @ [(''a'' @ ''.'' @ ''b'', 1::nat)]). a < length ?h" by simp
  have n: "nest_dict ([] @ [(''a'' @ ''.'' @ ''b'', 1)]) ''.'' ?h = Inr (?h1, 2)" by code_simp
  have c1: "cell_at ?h1 2 = Some (CDict [(''a'', 3)])" by (simp add: cell_at_def)
  note t = nest_conflict[of ?h 0 1 "[]" "''a''" "''b''" 1 "[]" ?h1 2]
  from t c have "\<exists>e. nest_dict ([] @ (''a'', 0) # (''a'' @ ''.'' @ ''b'', 1) # []) ''.'' ?h = Inl e \<and>
      (e = TypeError \<or> e = AttributeError)" by blast
  from t p wf b n obtain es sub where ce: "cell_at ?h1 2 = Some (CDict es)"
    and ne: "nest_dict ([] @ [(''a'' @ ''.'' @ ''b'', 1), (''a'', 0)]) ''.'' ?h =
           Inr (?h1[2 := CDict (setitem ''a'' 0 es)], 2)" by blast
  from ce c1 have es: "es = [(''a'', 3)]" by simp
  from ne have o: "nest_dict [(''a.b'', 1), (''a'', 0)] ''.'' ?h =
      Inr ([CLeaf 1, CLeaf 2, CDict [(''a'', 0)], CDict [(''b'', 1)]], 2)" unfolding es by simp
  from n have n': "nest_dict [(''a.b'', 1)] ''.'' ?h = Inr (?h1, 2)" by simp
  from c t1 t2 p wf n' o show ?thesis by blast
qed

text \<open>
  Claim C9 as stated fails: the key \<^verbatim>\<open>a.b\<close> makes \<^verbatim>\<open>a\<close> a mapping and the key \<^verbatim>\<open>a\<close> makes it a
  leaf, yet \<^verbatim>\<open>nest_dict({'a.b': 2, 'a': 1})\<close> raises nothing. It returns \<^verbatim>\<open>{'a': 1}\<close>: the leaf
  has overwritten the mapping, which is left in the store with nothing holding it.
\<close>

theorem nest_conflict_overwrites:
  "nest_dict [(''a.b'', 1), (''a'', 0)] ''.'' [CLeaf (1::nat), CLeaf 2]
     = Inr ([CLeaf 1, CLeaf 2, CDict [(''a'', 0)], CDict [(''b'', 1)]], 2)
   \<and> stored 2 [CLeaf (1::nat), CLeaf 2, CDict [(''a'', 0)], CDict [(''b'', 1)]] 2 (Dict [(''a'', Leaf 0)])"
  by code_simp

text \<open>
  Nor does every conflict in the other order fail. An instance of \<^verbatim>\<open>DictDataClass\<close> under \<^verbatim>\<open>a\<close>
  takes the key \<^verbatim>\<open>a.y\<close> as an attribute: \<^verbatim>\<open>nest_dict({'a': P(x=1), 'a.y': 2})\<close> raises nothing
  and the instance of the caller has the new attribute; a deeper key fails on it with
  AttributeError. A dict under \<^verbatim>\<open>a\<close> is the caller's dict, not a copy: the key \<^verbatim>\<open>a.y\<close> is
  written into it, and an entry \<^verbatim>\<open>b\<close> that holds the same dict shows the new key as well.
\<close>

lemma nest_dict_by_reference:
  "nest_dict [(''a'', 0), (''a.y'', 2)] ''.'' [CInst [(''x'', 1)], CLeaf (1::nat), CLeaf 2]
     = Inr ([CInst [(''x'', 1), (''y'', 2)], CLeaf 1, CLeaf 2, CDict [(''a'', 0)]], 3)"
  "nest_dict [(''a'', 0), (''a.y.z'', 2)] ''.'' [CInst [(''x'', 1)], CLeaf (1::nat), CLeaf 2]
     = Inl AttributeError"
  "nest_dict [(''a'', 0), (''b'', 0), (''a.y'', 1)] ''.'' [CDict [], CLeaf (5::nat)]
     = Inr ([CDict [(''y'', 1)], CLeaf 5, CDict [(''a'', 0), (''b'', 0)]], 2)"
  by code_simp+


subsection \<open>Copies and identities\<close>

lemma deepcopy_fresh:
  fixes v :: "'a obj" and fs :: "(string \<times> 'a obj) list" and vs :: "'a obj list"
  shows "\<forall>c n'. deepcopy_obj v n = (c, n') \<longrightarrow>
           n \<le> n' \<and> ids c \<subseteq> {n..<n'} \<and> erase c = erase v \<and> is_PObj c = is_PObj v"
    and "\<forall>fs' n'. deepcopy_fields fs n = (fs', n') \<longrightarrow>
           n \<le> n' \<and> ids_fields fs' \<subseteq> {n..<n'} \<and> erase_fields fs' = erase_fields fs \<and>
           map fst fs' = map fst fs"
    and "\<forall>vs' n'. deepcopy_list vs n = (vs', n') \<longrightarrow>
           n \<le> n' \<and> ids_list vs' \<subseteq> {n..<n'} \<and> erase_list vs' = erase_list vs"
proof (induction v n and fs n and vs n rule: deepcopy_obj_deepcopy_fields_deepcopy_list.induct)
  case (1 x n)
  show ?case by simp
next
  case (2 i x n)
  show ?case by auto
next
  case (3 i fs n)
  show ?case
  proof (intro allI impI)
    fix c n'
    assume "deepcopy_obj (PObj i fs) n = (c, n')"
    then obtain fs' where d: "deepcopy_fields fs (Suc n) = (fs', n')" and c: "c = PObj n fs'"
      by (auto split: prod.splits)
    from 3 d have "Suc n \<le> n'" and "ids_fields fs' \<subseteq> {Suc n..<n'}"
      and "erase_fields fs' = erase_fields fs" by blast+
    with c show "n \<le> n' \<and> ids c \<subseteq> {n..<n'} \<and> erase c = erase (PObj i fs) \<and> is_PObj c = is_PObj (PObj i fs)"
      by auto
  qed
next
  case (4 i vs n)
  show ?case
  proof (intro allI impI)
    fix c n'
    assume "deepcopy_obj (SObj i vs) n = (c, n')"
    then obtain vs' where d: "deepcopy_list vs (Suc n) = (vs', n')" and c: "c = SObj n vs'"
      by (auto split: prod.splits)
    from 4 d have "Suc n \<le> n'" and "ids_list vs' \<subseteq> {Suc n..<n'}"
      and "erase_list vs' = erase_list vs" by blast+
    with c show "n \<le> n' \<and> ids c \<subseteq> {n..<n'} \<and> erase c = erase (SObj i vs) \<and> is_PObj c = is_PObj (SObj i vs)"
      by auto
  qed
next
  case (5 n)
  show ?case by simp
next
  case (6 k v fs n)
  show ?case
  proof (intro allI impI)
    fix fs' n'
    assume "deepcopy_fields ((k, v) # fs) n = (fs', n')"
    then obtain v' n1 fs1 where d1: "deepcopy_obj v n = (v', n1)"
      and d2: "deepcopy_fields fs n1 = (fs1, n')" and f: "fs' = (k, v') # fs1"
      by (auto split: prod.splits)
    from 6(1) d1 have a: "n \<le> n1" "ids v' \<subseteq> {n..<n1}" "erase v' = erase v" by blast+
    from 6(2)[OF d1[symmetric]] d2 have b: "n1 \<le> n'" "ids_fields fs1 \<subseteq> {n1..<n'}"
      "erase_fields fs1 = erase_fields fs" "map fst fs1 = map fst fs" by blast+
    from a b f show "n \<le> n' \<and> ids_fields fs' \<subseteq> {n..<n'} \<and>
        erase_fields fs' = erase_fields ((k, v) # fs) \<and> map fst fs' = map fst ((k, v) # fs)"
      by (auto dest: subsetD)
  qed
next
  case (7 n)
  show ?case by simp
next
  case (8 v vs n)
  show ?case
  proof (intro allI impI)
    fix vs' n'
    assume "deepcopy_list (v # vs) n = (vs', n')"
    then obtain v' n1 vs1 where d1: "deepcopy_obj v n = (v', n1)"
      and d2: "deepcopy_list vs n1 = (vs1, n')" and f: "vs' = v' # vs1"
      by (auto split: prod.splits)
    from 8(1) d1 have a: "n \<le> n1" "ids v' \<subseteq> {n..<n1}" "erase v' = erase v" by blast+
    from 8(2)[OF d1[symmetric]] d2 have b: "n1 \<le> n'" "ids_list vs1 \<subseteq> {n1..<n'}"
      "erase_list vs1 = erase_list vs" by blast+
    from a b f show "n \<le> n' \<and> ids_list vs' \<subseteq> {n..<n'} \<and> erase_list vs' = erase_list (v # vs)"
      by (auto dest: subsetD)
  qed
qed

lemma interval_widen:
  "A \<subseteq> {a..<b} \<Longrightarrow> a' \<le> a \<Longrightarrow> b \<le> b' \<Longrightarrow> A \<subseteq> {a'..<b'::nat}"
  by force

lemma settings_loop_obj_fresh:
  "settings_loop_obj tuples keys setting acc (n, log) = (outs, (n', log')) \<Longrightarrow>
     \<exists>new. outs = acc @ new \<and> length new = length tuples \<and> n \<le> n' \<and>
       (\<forall>c \<in> set new. ids c \<subseteq> {n..<n'}) \<and> disjoint_ids new"
proof (induction tuples arbitrary: setting acc n log)
  case Nil
  then show ?case by simp
next
  case (Cons t tuples)
  let ?s = "setattrs_obj (zip keys t) setting"
  let ?log = "log @ setattr_writes (zip keys t) setting"
  obtain c n1 where d: "deepcopy_obj ?s n = (c, n1)" by (cases "deepcopy_obj ?s n")
  with Cons.prems have r: "settings_loop_obj tuples keys ?s (acc @ [c]) (n1, ?log) = (outs, (n', log'))"
    by (simp add: Let_def)
  from deepcopy_fresh(1)[of ?s n] d have c: "n \<le> n1" "ids c \<subseteq> {n..<n1}" by blast+
  from Cons.IH[OF r] obtain new where n: "outs = (acc @ [c]) @ new" "length new = length tuples"
    "n1 \<le> n'" "\<forall>c' \<in> set new. ids c' \<subseteq> {n1..<n'}" "disjoint_ids new" by blast
  have "\<forall>c' \<in> set new. ids c \<inter> ids c' = {}"
  proof
    fix c' assume "c' \<in> set new"
    with n(4) have "ids c' \<subseteq> {n1..<n'}" by blast
    with c(2) show "ids c \<inter> ids c' = {}" by fastforce
  qed
  moreover have "\<forall>c' \<in> set (c # new). ids c' \<subseteq> {n..<n'}"
  proof
    fix c' assume "c' \<in> set (c # new)"
    then have "c' = c \<or> c' \<in> set new" by simp
    then show "ids c' \<subseteq> {n..<n'}"
    proof
      assume "c' = c"
      with c(2) n(3) show ?thesis by (auto intro: interval_widen)
    next
      assume "c' \<in> set new"
      with n(4) have "ids c' \<subseteq> {n1..<n'}" by blast
      with c(1) show ?thesis by (auto intro: interval_widen)
    qed
  qed
  ultimately have "outs = acc @ (c # new) \<and> length (c # new) = length (t # tuples) \<and> n \<le> n' \<and>
       (\<forall>c' \<in> set (c # new). ids c' \<subseteq> {n..<n'}) \<and> disjoint_ids (c # new)"
    using n c by simp
  then show ?case by blast
qed

text \<open>The loop assigns to the working copy only.\<close>

lemma settings_loop_obj_writes:
  "settings_loop_obj tuples keys (PObj j fs) acc (n, log) = (outs, (n', log')) \<Longrightarrow>
     \<exists>ws. log' = log @ ws \<and> (\<forall>w \<in> set ws. fst w = j)"
proof (induction tuples arbitrary: fs acc n log)
  case Nil
  then show ?case by simp
next
  case (Cons t tuples)
  let ?fs = "setattrs (zip keys t) fs"
  let ?ws = "map (\<lambda>(k, v). (j, k, v)) (zip keys t)"
  obtain c n1 where d: "deepcopy_obj (PObj j ?fs) n = (c, n1)" by (cases "deepcopy_obj (PObj j ?fs) n")
  with Cons.prems have r: "settings_loop_obj tuples keys (PObj j ?fs) (acc @ [c]) (n1, log @ ?ws) = (outs, (n', log'))"
    by (simp add: Let_def)
  from Cons.IH[OF r] obtain ws where w: "log' = (log @ ?ws) @ ws" "\<forall>w \<in> set ws. fst w = j" by blast
  have "\<forall>w \<in> set ?ws. fst w = j" by auto
  with w have "log' = log @ (?ws @ ws) \<and> (\<forall>w \<in> set (?ws @ ws). fst w = j)" by auto
  then show ?case by blast
qed

lemma extends_refl: "extends s s"
  by (simp add: extends_def)

lemma extends_trans: "extends s s1 \<Longrightarrow> extends s1 s2 \<Longrightarrow> extends s s2"
proof -
  assume a: "extends s s1" and b: "extends s1 s2"
  from a obtain ws where w: "fst s \<le> fst s1" "snd s1 = snd s @ ws"
    "\<forall>w \<in> set ws. fst s \<le> fst w \<and> fst w < fst s1" by (auto simp: extends_def)
  from b obtain ws' where w': "fst s1 \<le> fst s2" "snd s2 = snd s1 @ ws'"
    "\<forall>w \<in> set ws'. fst s1 \<le> fst w \<and> fst w < fst s2" by (auto simp: extends_def)
  have "\<forall>w \<in> set (ws @ ws'). fst s \<le> fst w \<and> fst w < fst s2"
  proof
    fix x assume "x \<in> set (ws @ ws')"
    then have "x \<in> set ws \<or> x \<in> set ws'" by simp
    then show "fst s \<le> fst x \<and> fst x < fst s2"
    proof
      assume "x \<in> set ws"
      with w(3) have "fst s \<le> fst x \<and> fst x < fst s1" by blast
      with w'(1) show ?thesis by simp
    next
      assume "x \<in> set ws'"
      with w'(3) have "fst s1 \<le> fst x \<and> fst x < fst s2" by blast
      with w(1) show ?thesis by simp
    qed
  qed
  moreover have "snd s2 = snd s @ (ws @ ws')" using w(2) w'(2) by simp
  moreover have "fst s \<le> fst s2" using w(1) w'(1) by simp
  ultimately show ?thesis unfolding extends_def by blast
qed

lemma get_settings_obj_extends:
  assumes c: "collect_obj fs [] [] s = Inr (ks, cs, (n1, log1))"
    and e: "extends s (n1, log1)"
    and g: "get_settings_obj (PObj i fs) s = Inr (outs, s')"
  shows "extends s s'"
proof -
  obtain st n2 where d: "deepcopy_obj (PObj i fs) n1 = (st, n2)" by (cases "deepcopy_obj (PObj i fs) n1")
  then obtain fs' where st: "st = PObj n1 fs'" by (auto split: prod.splits)
  obtain n' log' where s': "s' = (n', log')" by (cases s')
  from g c d s' st have l: "settings_loop_obj (product_pools cs) ks (PObj n1 fs') [] (n2, log1) = (outs, (n', log'))"
    by (simp add: get_settings_obj.simps(1))
  from deepcopy_fresh(1)[of "PObj i fs" n1] d st have n2: "n1 < n2" by auto
  from settings_loop_obj_fresh[OF l] have n': "n2 \<le> n'" by blast
  from settings_loop_obj_writes[OF l] obtain ws where ws: "log' = log1 @ ws" "\<forall>w \<in> set ws. fst w = n1"
    by blast
  from n2 n' ws have "extends (n1, log1) (n', log')" by (auto simp: extends_def)
  with e s' show ?thesis by (auto intro: extends_trans)
qed

lemma counter_grows:
  fixes v :: "'a obj" and fs :: "(string \<times> 'a obj) list" and vs :: "'a obj list"
  shows "\<forall>outs s'. get_settings_obj v s = Inr (outs, s') \<longrightarrow> extends s s'"
    and "\<forall>ks cs s'. collect_obj fs keys vls s = Inr (ks, cs, s') \<longrightarrow> extends s s'"
    and "\<forall>r s'. value_list_obj k v s = Inr (r, s') \<longrightarrow> extends s s'"
    and "\<forall>r s'. expand_each_obj vs s = Inr (r, s') \<longrightarrow> extends s s'"
proof (induction v s and fs keys vls s and k v s and vs s
    rule: get_settings_obj_collect_obj_value_list_obj_expand_each_obj.induct)
  case (1 i fs s)
  show ?case
  proof (intro allI impI)
    fix outs s'
    assume g: "get_settings_obj (PObj i fs) s = Inr (outs, s')"
    then obtain ks cs n1 log1 where c: "collect_obj fs [] [] s = Inr (ks, cs, (n1, log1))"
      by (auto simp: get_settings_obj.simps(1) split: sum.splits)
    from 1 c have "extends s (n1, log1)" by blast
    with c show "extends s s'" using g by (rule get_settings_obj_extends)
  qed
next
  case (5 keys value_lists s)
  show ?case by (simp add: extends_refl)
next
  case (6 k v items keys value_lists s)
  show ?case
  proof (intro allI impI)
    fix ks cs s'
    assume c: "collect_obj ((k, v) # items) keys value_lists s = Inr (ks, cs, s')"
    then obtain r s1 where v: "value_list_obj k v s = Inr (r, s1)"
      by (auto split: sum.splits)
    from 6(1) v have a: "extends s s1" by blast
    show "extends s s'"
    proof (cases r)
      case None
      with c v have "collect_obj items keys value_lists s1 = Inr (ks, cs, s')" by simp
      with 6(2)[OF v refl None] have "extends s1 s'" by blast
      with a show ?thesis by (rule extends_trans)
    next
      case (Some vl)
      with c v have "collect_obj items (keys @ [k]) (value_lists @ [vl]) s1 = Inr (ks, cs, s')" by simp
      with 6(3)[OF v refl Some] have "extends s1 s'" by blast
      with a show ?thesis by (rule extends_trans)
    qed
  qed
next
  case (7 k i fs s)
  then show ?case by (auto split: sum.splits)
next
  case (8 k i vs s)
  then show ?case by (auto simp: extends_refl split: sum.splits if_splits)
next
  case (9 k x s)
  show ?case by (simp add: extends_refl)
next
  case (10 k i x s)
  show ?case by (simp add: extends_refl)
next
  case (11 s)
  show ?case by (simp add: extends_refl)
next
  case (12 v vs s)
  show ?case
  proof (intro allI impI)
    fix r s'
    assume e: "expand_each_obj (v # vs) s = Inr (r, s')"
    then obtain st s1 where g: "get_settings_obj v s = Inr (st, s1)"
      by (auto split: sum.splits)
    with e obtain r' where e': "expand_each_obj vs s1 = Inr (r', s')"
      by (auto split: sum.splits)
    from 12(1) g have "extends s s1" by blast
    moreover from 12(2)[OF g refl] e' have "extends s1 s'" by blast
    ultimately show "extends s s'" by (rule extends_trans)
  qed
qed simp_all


subsection \<open>The objects have the values of the value model\<close>

lemma map_fst_erase_fields: "map fst (erase_fields fs) = map fst fs"
  by (induction fs) auto

lemma erase_list_append: "erase_list (a @ b) = erase_list a @ erase_list b"
  by (induction a) auto

lemma erase_list_map: "erase_list vs = map erase vs"
  by (induction vs) auto

lemma erase_setitem: "erase_fields (setitem k v fs) = setitem k (erase v) (erase_fields fs)"
  by (induction fs) auto

lemma erase_setattrs: "erase_fields (setattrs kvs fs) = setattrs (erase_fields kvs) (erase_fields fs)"
proof (induction kvs arbitrary: fs)
  case Nil
  show ?case by simp
next
  case (Cons a kvs)
  obtain k v where "a = (k, v)" by (cases a)
  with Cons show ?case by (simp add: erase_setitem)
qed

lemma erase_zip: "erase_fields (zip keys vals) = zip keys (erase_list vals)"
proof (induction keys arbitrary: vals)
  case Nil
  show ?case by simp
next
  case (Cons k keys)
  then show ?case by (cases vals) auto
qed

lemma is_Parameters_erase: "is_Parameters (erase v) = is_PObj v"
  by (cases v) auto

lemma hd_erase_list: "vs \<noteq> [] \<Longrightarrow> hd (erase_list vs) = erase (hd vs)"
  by (cases vs) auto

lemma erase_list_Nil: "erase_list vs = [] \<longleftrightarrow> vs = []"
  by (cases vs) auto

lemma product_lists_map: "product_lists (map (map f) xss) = map (map f) (product_lists xss)"
  by (induction xss) (auto simp: map_concat comp_def)

lemma product_pools_erase:
  "product_pools (map erase_list pools) = map erase_list (product_pools pools)"
proof -
  have e: "erase_list = (map erase :: 'a obj list \<Rightarrow> 'a val list)"
    by (rule ext) (rule erase_list_map)
  show ?thesis unfolding product_pools_eq e by (rule product_lists_map)
qed

lemma settings_loop_erase:
  "erase_list (fst (settings_loop_obj tuples keys (PObj i fs) acc (n, log))) =
     settings_loop (map erase_list tuples) keys (erase_fields fs) (erase_list acc)"
proof (induction tuples arbitrary: fs acc n log)
  case Nil
  show ?case by simp
next
  case (Cons t tuples)
  let ?fs = "setattrs (zip keys t) fs"
  let ?log = "log @ setattr_writes (zip keys t) (PObj i fs)"
  obtain c n1 where d: "deepcopy_obj (PObj i ?fs) n = (c, n1)" by (cases "deepcopy_obj (PObj i ?fs) n")
  from deepcopy_fresh(1)[of "PObj i ?fs" n] d have "erase c = erase (PObj i ?fs)" by blast
  then have e: "erase c = Parameters (setattrs (zip keys (erase_list t)) (erase_fields fs))"
    by (simp add: erase_setattrs erase_zip)
  have "erase_list (fst (settings_loop_obj (t # tuples) keys (PObj i fs) acc (n, log))) =
        erase_list (fst (settings_loop_obj tuples keys (PObj i ?fs) (acc @ [c]) (n1, ?log)))"
    using d by (simp add: Let_def)
  also have "\<dots> = settings_loop (map erase_list tuples) keys (erase_fields ?fs) (erase_list (acc @ [c]))"
    by (rule Cons.IH)
  finally show ?case
    by (simp add: Let_def e erase_setattrs erase_zip erase_list_append deepcopy_def)
qed

lemma expand_each_Cons:
  "expand_each (v # vs) =
     (case get_settings_val v of
        Inl e \<Rightarrow> Inl e
      | Inr s \<Rightarrow> (case expand_each vs of Inl e \<Rightarrow> Inl e | Inr r \<Rightarrow> Inr (s @ r)))"
  by (cases v) (simp_all add: get_settings_val_def)

lemma value_list_Parameters:
  "is_Parameters v \<Longrightarrow>
     value_list k v = (case get_settings_val v of Inl e \<Rightarrow> Inl e | Inr s \<Rightarrow> Inr (Some s))"
  by (cases v) (simp_all add: get_settings_val_def)

lemma erasure:
  fixes v :: "'a obj" and fs :: "(string \<times> 'a obj) list" and vs :: "'a obj list"
  shows "map_sum id (\<lambda>(outs, n'). erase_list outs) (get_settings_obj v n) = get_settings_val (erase v)"
    and "map_sum id (\<lambda>(ks, cs, n'). (ks, map erase_list cs)) (collect_obj fs keys vls n) =
           collect (erase_fields fs) keys (map erase_list vls)"
    and "map_sum id (\<lambda>(r, n'). map_option erase_list r) (value_list_obj k v n) = value_list k (erase v)"
    and "map_sum id (\<lambda>(r, n'). erase_list r) (expand_each_obj vs n) = expand_each (erase_list vs)"
proof (induction v n and fs keys vls n and k v n and vs n
    rule: get_settings_obj_collect_obj_value_list_obj_expand_each_obj.induct)
  case (1 i fs n)
  show ?case
  proof (cases "collect_obj fs [] [] n")
    case (Inl e)
    with 1 have "collect (erase_fields fs) [] [] = Inl e" by simp
    with Inl show ?thesis
      by (simp add: get_settings_obj.simps(1) get_settings_val_def get_settings.simps)
  next
    case (Inr r)
    obtain ks cs n1 log1 where r: "r = (ks, cs, (n1, log1))" by (cases r) auto
    with Inr 1 have c: "collect (erase_fields fs) [] [] = Inr (ks, map erase_list cs)" by simp
    obtain s n2 where d: "deepcopy_obj (PObj i fs) n1 = (s, n2)" by (cases "deepcopy_obj (PObj i fs) n1")
    then obtain fs' where s: "s = PObj n1 fs'" by (auto split: prod.splits)
    from deepcopy_fresh(1)[of "PObj i fs" n1] d s have ef: "erase_fields fs' = erase_fields fs" by auto
    let ?l = "settings_loop_obj (product_pools cs) ks (PObj n1 fs') [] (n2, log1)"
    have g: "get_settings_obj (PObj i fs) n = Inr ?l"
      using Inr r d s by (simp add: get_settings_obj.simps(1))
    have "erase_list (fst ?l) = settings_loop (map erase_list (product_pools cs)) ks (erase_fields fs') (erase_list [])"
      by (rule settings_loop_erase)
    then have "erase_list (fst ?l) = settings_loop (product_pools (map erase_list cs)) ks (erase_fields fs) []"
      by (simp add: ef product_pools_erase)
    with c g show ?thesis
      by (simp add: get_settings_val_def get_settings.simps deepcopy_def case_prod_unfold)
  qed
next
  case (2 x n)
  show ?case by (simp add: get_settings_val_def)
next
  case (3 i x n)
  show ?case by (simp add: get_settings_val_def)
next
  case (4 i vs n)
  show ?case by (simp add: get_settings_val_def)
next
  case (5 keys value_lists n)
  show ?case by simp
next
  case (6 k v items keys value_lists n)
  show ?case
  proof (cases "value_list_obj k v n")
    case (Inl e)
    with 6(1) have "value_list k (erase v) = Inl e" by simp
    with Inl show ?thesis by simp
  next
    case (Inr b)
    obtain r n1 where b: "b = (r, n1)" by (cases b)
    with Inr 6(1) have v: "value_list k (erase v) = Inr (map_option erase_list r)" by simp
    show ?thesis
    proof (cases r)
      case None
      from 6(2)[OF Inr b[symmetric] None] Inr b None v show ?thesis by simp
    next
      case (Some vl)
      from 6(3)[OF Inr b[symmetric] Some] Inr b Some v show ?thesis by simp
    qed
  qed
next
  case (7 k i fs n)
  have "value_list k (erase (PObj i fs)) =
        (case get_settings_val (erase (PObj i fs)) of Inl e \<Rightarrow> Inl e | Inr s \<Rightarrow> Inr (Some s))"
    by (rule value_list_Parameters) simp
  with 7[symmetric] show ?case
    by (cases "get_settings_obj (PObj i fs) n") (auto simp: case_prod_unfold)
next
  case (8 k i vs n)
  show ?case
  proof (cases "vs = []")
    case True
    then show ?thesis by simp
  next
    case False
    show ?thesis
    proof (cases "is_PObj (hd vs)")
      case True
      from False have l: "length vs \<noteq> 0" by simp
      note ih = 8[OF l True, symmetric]
      with False True show ?thesis
        by (cases "expand_each_obj vs n")
          (auto simp: erase_list_Nil hd_erase_list is_Parameters_erase case_prod_unfold)
    next
      case no: False
      with False show ?thesis
        by (simp add: erase_list_Nil hd_erase_list is_Parameters_erase)
    qed
  qed
next
  case (9 k x n)
  show ?case by simp
next
  case (10 k i x n)
  show ?case by simp
next
  case (11 n)
  show ?case by simp
next
  case (12 v vs n)
  show ?case
  proof (cases "get_settings_obj v n")
    case (Inl e)
    with 12(1) have "get_settings_val (erase v) = Inl e" by simp
    with Inl show ?thesis by (simp add: expand_each_Cons)
  next
    case (Inr b)
    obtain s n1 where b: "b = (s, n1)" by (cases b)
    with Inr 12(1) have g: "get_settings_val (erase v) = Inr (erase_list s)" by simp
    from 12(2)[OF Inr b[symmetric]]
    have ih: "map_sum id (\<lambda>(r, n'). erase_list r) (expand_each_obj vs n1) = expand_each (erase_list vs)" .
    show ?thesis
    proof (cases "expand_each_obj vs n1")
      case (Inl e)
      with ih have "expand_each (erase_list vs) = Inl e" by simp
      with Inl Inr b g show ?thesis by (simp add: expand_each_Cons)
    next
      case r: (Inr c)
      obtain r' n2 where c: "c = (r', n2)" by (cases c)
      with r ih have "expand_each (erase_list vs) = Inr (erase_list r')" by simp
      with r c Inr b g show ?thesis by (simp add: expand_each_Cons erase_list_append)
    qed
  qed
qed


subsection \<open>The outputs are independent\<close>

lemma mutate_other:
  fixes c :: "'a obj" and fs :: "(string \<times> 'a obj) list" and vs :: "'a obj list"
  shows "j \<notin> ids c \<longrightarrow> mutate j k v c = c"
    and "j \<notin> ids_fields fs \<longrightarrow> mutate_fields j k v fs = fs"
    and "j \<notin> ids_list vs \<longrightarrow> mutate_list j k v vs = vs"
  by (induction j k v c and j k v fs and j k v vs rule: mutate_mutate_fields_mutate_list.induct) auto

lemma disjoint_ids_nth:
  "disjoint_ids cs \<Longrightarrow> a < b \<Longrightarrow> b < length cs \<Longrightarrow> ids (cs ! a) \<inter> ids (cs ! b) = {}"
proof (induction cs arbitrary: a b)
  case Nil
  then show ?case by simp
next
  case (Cons c cs)
  from Cons.prems(2) obtain b' where b: "b = Suc b'" by (cases b) auto
  show ?case
  proof (cases a)
    case 0
    from Cons.prems(3) b have "cs ! b' \<in> set cs" by simp
    with Cons.prems(1) 0 b show ?thesis by simp
  next
    case (Suc a')
    with Cons b show ?thesis by simp
  qed
qed

lemma candidates_varying:
  "k \<in> set (map fst (candidates items)) \<Longrightarrow>
     \<exists>v. (k, v) \<in> set items \<and> (is_Parameters v \<or> is_Settings v)"
proof (induction items)
  case Nil
  then show ?case by simp
next
  case (Cons a items)
  obtain k' v' where a: "a = (k', v')" by (cases a)
  show ?case
  proof (cases "k \<in> set (map fst (candidates items))")
    case True
    with Cons.IH show ?thesis by auto
  next
    case False
    with Cons.prems a have "k = k'" and "\<exists>vl. value_list k' v' = Inr (Some vl)"
      by (auto split: sum.splits option.splits)
    then have "is_Parameters v' \<or> is_Settings v'" by (cases v') auto
    with \<open>k = k'\<close> a show ?thesis by auto
  qed
qed

lemma is_fixed_erase: "\<not> is_PObj v \<Longrightarrow> \<not> is_SObj v \<Longrightarrow> \<not> is_Parameters (erase v) \<and> \<not> is_Settings (erase v)"
  by (cases v) auto

lemma erase_fields_mem: "(k, v) \<in> set fs \<Longrightarrow> (k, erase v) \<in> set (erase_fields fs)"
  by (induction fs) auto

lemma erase_list_mem: "c \<in> set cs \<Longrightarrow> erase c \<in> set (erase_list cs)"
  by (induction cs) auto

lemma after_other: "\<forall>w \<in> set ws. fst w \<notin> ids t \<Longrightarrow> after ws t = t"
proof (induction ws)
  case Nil
  show ?case by simp
next
  case (Cons w ws)
  obtain j k v where w: "w = (j, k, v)" by (cases w)
  with Cons.prems have "j \<notin> ids t" by simp
  then have "mutate j k v t = t" using mutate_other(1) by blast
  with Cons w show ?case by simp
qed

text \<open>
  Claim C7. For a tree with distinct field names whose objects were all made before the
  call: the values of the outputs are those of \<open>get_settings\<close> on the value of the tree; every
  output has the fields of the tree, and each field of the tree that holds neither a
  \<open>Parameters\<close> instance nor a \<open>Settings\<close> list has its value in every output; no output holds
  an object of the tree, and no two outputs hold a common object; so assigning to a field
  of an object of one output changes neither another output nor the tree. The call itself
  leaves the tree as it was: none of its assignments is to an object of the tree, nor to an
  object of an output, and the tree after all the assignments of the call is the tree
  before it.
\<close>

theorem expansion_independence:
  assumes "distinct (map fst fs)" and "ids (PObj i fs) \<subseteq> {..<n}"
    and "get_settings_obj (PObj i fs) (n, []) = Inr (outs, (n', writes))"
  shows "get_settings (erase_fields fs) = Inr (erase_list outs)
       \<and> (\<forall>c \<in> set outs. \<exists>fs'. erase c = Parameters fs' \<and> map fst fs' = map fst fs \<and>
            (\<forall>(k, v) \<in> set fs. \<not> is_PObj v \<and> \<not> is_SObj v \<longrightarrow> getitem fs' k = Some (erase v)))
       \<and> (\<forall>c \<in> set outs. ids c \<inter> ids (PObj i fs) = {})
       \<and> (\<forall>a b. a < length outs \<and> b < length outs \<and> a \<noteq> b \<longrightarrow>
            ids (outs ! a) \<inter> ids (outs ! b) = {} \<and>
            (\<forall>j k v. j \<in> ids (outs ! a) \<longrightarrow>
               mutate j k v (outs ! b) = outs ! b \<and> mutate j k v (PObj i fs) = PObj i fs))
       \<and> (\<forall>(j, k, v) \<in> set writes. j \<notin> ids (PObj i fs) \<and> (\<forall>c \<in> set outs. j \<notin> ids c))
       \<and> after writes (PObj i fs) = PObj i fs"
proof -
  let ?s = "erase_fields fs"
  have ds: "distinct (map fst ?s)" using assms(1) by (simp add: map_fst_erase_fields)
  from erasure(1)[of "PObj i fs" "(n, [])"] assms(3)
  have gv: "get_settings ?s = Inr (erase_list outs)" by (simp add: get_settings_val_def)
  \<comment> \<open>the fixed fields\<close>
  let ?keys = "map fst (candidates ?s)"
  have em: "erase_list outs = map (\<lambda>vals. Parameters (assign (zip ?keys vals) ?s))
                  (product_lists (map snd (candidates ?s)))"
    using ds gv by (rule get_settings_map)
  have fixed: "\<forall>c \<in> set outs. \<exists>fs'. erase c = Parameters fs' \<and> map fst fs' = map fst fs \<and>
            (\<forall>(k, v) \<in> set fs. \<not> is_PObj v \<and> \<not> is_SObj v \<longrightarrow> getitem fs' k = Some (erase v))"
  proof
    fix c assume "c \<in> set outs"
    then have "erase c \<in> set (erase_list outs)" by (rule erase_list_mem)
    with em obtain vals where ec: "erase c = Parameters (assign (zip ?keys vals) ?s)" by auto
    have "\<forall>(k, v) \<in> set fs. \<not> is_PObj v \<and> \<not> is_SObj v \<longrightarrow>
            getitem (assign (zip ?keys vals) ?s) k = Some (erase v)"
    proof (intro ballI, clarify)
      fix k v assume m: "(k, v) \<in> set fs" and f: "\<not> is_PObj v" "\<not> is_SObj v"
      from m have me: "(k, erase v) \<in> set ?s" by (rule erase_fields_mem)
      with ds have g: "getitem ?s k = Some (erase v)" by (rule getitem_distinct)
      have "k \<notin> set ?keys"
      proof
        assume "k \<in> set ?keys"
        from candidates_varying[OF this] obtain w where w: "(k, w) \<in> set ?s"
          and v: "is_Parameters w \<or> is_Settings w" by blast
        from ds w have "getitem ?s k = Some w" by (rule getitem_distinct)
        with g have "w = erase v" by simp
        with v is_fixed_erase[OF f] show False by simp
      qed
      then have "map_of (zip ?keys vals) k = None"
        by (auto simp: map_of_eq_None_iff dest: set_zip_leftD)
      with g show "getitem (assign (zip ?keys vals) ?s) k = Some (erase v)"
        by (simp add: getitem_assign)
    qed
    with ec show "\<exists>fs'. erase c = Parameters fs' \<and> map fst fs' = map fst fs \<and>
            (\<forall>(k, v) \<in> set fs. \<not> is_PObj v \<and> \<not> is_SObj v \<longrightarrow> getitem fs' k = Some (erase v))"
      by (auto simp: map_fst_assign map_fst_erase_fields)
  qed
  \<comment> \<open>the identities\<close>
  from assms(3) obtain ks cs n1 log1 where c: "collect_obj fs [] [] (n, []) = Inr (ks, cs, (n1, log1))"
    by (auto simp: get_settings_obj.simps(1) split: sum.splits)
  obtain s n2 where d: "deepcopy_obj (PObj i fs) n1 = (s, n2)" by (cases "deepcopy_obj (PObj i fs) n1")
  then obtain fs' where s: "s = PObj n1 fs'" by (auto split: prod.splits)
  from assms(3) c d s have l: "settings_loop_obj (product_pools cs) ks (PObj n1 fs') [] (n2, log1) = (outs, (n', writes))"
    by (simp add: get_settings_obj.simps(1))
  from counter_grows(2)[of fs "[]" "[]" "(n, [])"] c have ex: "extends (n, []) (n1, log1)" by blast
  then have n1: "n \<le> n1" and w1: "\<forall>w \<in> set log1. n \<le> fst w \<and> fst w < n1"
    by (auto simp: extends_def)
  from deepcopy_fresh(1)[of "PObj i fs" n1] d s have n2: "n1 < n2" by auto
  from settings_loop_obj_fresh[OF l] have fr: "\<forall>c \<in> set outs. ids c \<subseteq> {n2..<n'}"
    and dj: "disjoint_ids outs" by auto
  from settings_loop_obj_writes[OF l] obtain ws where ws: "writes = log1 @ ws"
    "\<forall>w \<in> set ws. fst w = n1" by blast
  have target: "\<forall>w \<in> set writes. n \<le> fst w \<and> fst w < n2"
  proof
    fix w assume "w \<in> set writes"
    with ws(1) have "w \<in> set log1 \<or> w \<in> set ws" by simp
    then show "n \<le> fst w \<and> fst w < n2"
    proof
      assume "w \<in> set log1"
      with w1 have "n \<le> fst w \<and> fst w < n1" by blast
      with n2 show ?thesis by simp
    next
      assume "w \<in> set ws"
      with ws(2) have "fst w = n1" by blast
      with n1 n2 show ?thesis by simp
    qed
  qed
  have input: "\<forall>c \<in> set outs. ids c \<inter> ids (PObj i fs) = {}"
  proof
    fix c assume "c \<in> set outs"
    with fr have "ids c \<subseteq> {n2..<n'}" by blast
    with assms(2) n1 n2 show "ids c \<inter> ids (PObj i fs) = {}" by fastforce
  qed
  have pair: "\<And>a b. a < length outs \<Longrightarrow> b < length outs \<Longrightarrow> a \<noteq> b \<Longrightarrow>
      ids (outs ! a) \<inter> ids (outs ! b) = {}"
  proof -
    fix a b assume ab: "a < length outs" "b < length outs" "a \<noteq> b"
    show "ids (outs ! a) \<inter> ids (outs ! b) = {}"
    proof (cases "a < b")
      case True
      with dj ab show ?thesis by (intro disjoint_ids_nth)
    next
      case False
      with ab have "b < a" by simp
      with dj ab have "ids (outs ! b) \<inter> ids (outs ! a) = {}" by (intro disjoint_ids_nth)
      then show ?thesis by blast
    qed
  qed
  have mut: "\<forall>a b. a < length outs \<and> b < length outs \<and> a \<noteq> b \<longrightarrow>
            ids (outs ! a) \<inter> ids (outs ! b) = {} \<and>
            (\<forall>j k v. j \<in> ids (outs ! a) \<longrightarrow>
               mutate j k v (outs ! b) = outs ! b \<and> mutate j k v (PObj i fs) = PObj i fs)"
  proof (intro allI impI conjI)
    fix a b assume ab: "a < length outs \<and> b < length outs \<and> a \<noteq> b"
    then show "ids (outs ! a) \<inter> ids (outs ! b) = {}" using pair by blast
  next
    fix a b j k v
    assume ab: "a < length outs \<and> b < length outs \<and> a \<noteq> b" and j: "j \<in> ids (outs ! a)"
    from ab pair have "ids (outs ! a) \<inter> ids (outs ! b) = {}" by blast
    with j have "j \<notin> ids (outs ! b)" by blast
    then show "mutate j k v (outs ! b) = outs ! b" using mutate_other(1) by blast
  next
    fix a b j k v
    assume ab: "a < length outs \<and> b < length outs \<and> a \<noteq> b" and j: "j \<in> ids (outs ! a)"
    from ab have "outs ! a \<in> set outs" by simp
    with input have "ids (outs ! a) \<inter> ids (PObj i fs) = {}" by blast
    with j have "j \<notin> ids (PObj i fs)" by blast
    then show "mutate j k v (PObj i fs) = PObj i fs" using mutate_other(1) by blast
  qed
  \<comment> \<open>the assignments of the call\<close>
  have notin: "\<forall>w \<in> set writes. fst w \<notin> ids (PObj i fs)"
  proof
    fix w assume "w \<in> set writes"
    with target have "n \<le> fst w" by blast
    with assms(2) show "fst w \<notin> ids (PObj i fs)" by fastforce
  qed
  have notout: "\<forall>w \<in> set writes. \<forall>c \<in> set outs. fst w \<notin> ids c"
  proof (intro ballI)
    fix w c assume "w \<in> set writes" and "c \<in> set outs"
    with target fr have "fst w < n2" and "ids c \<subseteq> {n2..<n'}" by blast+
    then show "fst w \<notin> ids c" by fastforce
  qed
  from notin notout
  have wr: "\<forall>(j, k, v) \<in> set writes. j \<notin> ids (PObj i fs) \<and> (\<forall>c \<in> set outs. j \<notin> ids c)"
    by fastforce
  from notin have af: "after writes (PObj i fs) = PObj i fs" by (rule after_other)
  from gv fixed input mut wr af show ?thesis by blast
qed

theorem expansion_independence_witness:
  "distinct (map fst [(''lr'', SObj 1 [Atom (1::nat), Atom 2]), (''m'', Mutable 2 9),
       (''opt'', SObj 3 [PObj 4 [(''x'', Atom 1)], PObj 5 [(''x'', Atom 2)]])])
   \<and> ids (PObj 0 [(''lr'', SObj 1 [Atom (1::nat), Atom 2]), (''m'', Mutable 2 9),
       (''opt'', SObj 3 [PObj 4 [(''x'', Atom 1)], PObj 5 [(''x'', Atom 2)]])]) \<subseteq> {..<6}
   \<and> get_settings_obj (PObj 0 [(''lr'', SObj 1 [Atom (1::nat), Atom 2]), (''m'', Mutable 2 9),
       (''opt'', SObj 3 [PObj 4 [(''x'', Atom 1)], PObj 5 [(''x'', Atom 2)]])]) (6, [])
     = Inr ([PObj 16 [(''lr'', Atom 1), (''m'', Mutable 17 9), (''opt'', PObj 18 [(''x'', Atom 1)])],
             PObj 19 [(''lr'', Atom 1), (''m'', Mutable 20 9), (''opt'', PObj 21 [(''x'', Atom 2)])],
             PObj 22 [(''lr'', Atom 2), (''m'', Mutable 23 9), (''opt'', PObj 24 [(''x'', Atom 1)])],
             PObj 25 [(''lr'', Atom 2), (''m'', Mutable 26 9), (''opt'', PObj 27 [(''x'', Atom 2)])]],
            (28, [(10, ''lr'', Atom 1), (10, ''opt'', PObj 7 [(''x'', Atom 1)]),
                  (10, ''lr'', Atom 1), (10, ''opt'', PObj 9 [(''x'', Atom 2)]),
                  (10, ''lr'', Atom 2), (10, ''opt'', PObj 7 [(''x'', Atom 1)]),
                  (10, ''lr'', Atom 2), (10, ''opt'', PObj 9 [(''x'', Atom 2)])]))
   \<and> get_settings (erase_fields [(''lr'', SObj 1 [Atom (1::nat), Atom 2]), (''m'', Mutable 2 9),
       (''opt'', SObj 3 [PObj 4 [(''x'', Atom 1)], PObj 5 [(''x'', Atom 2)]])])
     = Inr (erase_list
            [PObj 16 [(''lr'', Atom 1), (''m'', Mutable 17 9), (''opt'', PObj 18 [(''x'', Atom 1)])],
             PObj 19 [(''lr'', Atom 1), (''m'', Mutable 20 9), (''opt'', PObj 21 [(''x'', Atom 2)])],
             PObj 22 [(''lr'', Atom 2), (''m'', Mutable 23 9), (''opt'', PObj 24 [(''x'', Atom 1)])],
             PObj 25 [(''lr'', Atom 2), (''m'', Mutable 26 9), (''opt'', PObj 27 [(''x'', Atom 2)])]])
   \<and> mutate 16 ''lr'' (Atom 7)
         (PObj 16 [(''lr'', Atom (1::nat)), (''m'', Mutable 17 9), (''opt'', PObj 18 [(''x'', Atom 1)])])
       = PObj 16 [(''lr'', Atom 7), (''m'', Mutable 17 9), (''opt'', PObj 18 [(''x'', Atom 1)])]
   \<and> mutate 16 ''lr'' (Atom 7)
         (PObj 19 [(''lr'', Atom (1::nat)), (''m'', Mutable 20 9), (''opt'', PObj 21 [(''x'', Atom 2)])])
       = PObj 19 [(''lr'', Atom 1), (''m'', Mutable 20 9), (''opt'', PObj 21 [(''x'', Atom 2)])]
   \<and> mutate 18 ''x'' (Atom 7)
         (PObj 0 [(''lr'', SObj 1 [Atom (1::nat), Atom 2]), (''m'', Mutable 2 9),
            (''opt'', SObj 3 [PObj 4 [(''x'', Atom 1)], PObj 5 [(''x'', Atom 2)]])])
       = PObj 0 [(''lr'', SObj 1 [Atom 1, Atom 2]), (''m'', Mutable 2 9),
            (''opt'', SObj 3 [PObj 4 [(''x'', Atom 1)], PObj 5 [(''x'', Atom 2)]])]
   \<and> after [(10, ''lr'', Atom 1), (10, ''opt'', PObj 7 [(''x'', Atom 1)]),
             (10, ''lr'', Atom 1), (10, ''opt'', PObj 9 [(''x'', Atom 2)]),
             (10, ''lr'', Atom 2), (10, ''opt'', PObj 7 [(''x'', Atom 1)]),
             (10, ''lr'', Atom 2), (10, ''opt'', PObj 9 [(''x'', Atom 2)])]
         (PObj 0 [(''lr'', SObj 1 [Atom (1::nat), Atom 2]), (''m'', Mutable 2 9),
            (''opt'', SObj 3 [PObj 4 [(''x'', Atom 1)], PObj 5 [(''x'', Atom 2)]])])
       = PObj 0 [(''lr'', SObj 1 [Atom 1, Atom 2]), (''m'', Mutable 2 9),
            (''opt'', SObj 3 [PObj 4 [(''x'', Atom 1)], PObj 5 [(''x'', Atom 2)]])]"
proof -
  let ?fs = "[(''lr'', SObj 1 [Atom (1::nat), Atom 2]), (''m'', Mutable 2 9),
       (''opt'', SObj 3 [PObj 4 [(''x'', Atom 1)], PObj 5 [(''x'', Atom 2)]])]"
  let ?outs = "[PObj 16 [(''lr'', Atom (1::nat)), (''m'', Mutable 17 9), (''opt'', PObj 18 [(''x'', Atom 1)])],
             PObj 19 [(''lr'', Atom 1), (''m'', Mutable 20 9), (''opt'', PObj 21 [(''x'', Atom 2)])],
             PObj 22 [(''lr'', Atom 2), (''m'', Mutable 23 9), (''opt'', PObj 24 [(''x'', Atom 1)])],
             PObj 25 [(''lr'', Atom 2), (''m'', Mutable 26 9), (''opt'', PObj 27 [(''x'', Atom 2)])]]"
  let ?writes = "[(10, ''lr'', Atom (1::nat)), (10, ''opt'', PObj 7 [(''x'', Atom 1)]),
                  (10, ''lr'', Atom 1), (10, ''opt'', PObj 9 [(''x'', Atom 2)]),
                  (10, ''lr'', Atom 2), (10, ''opt'', PObj 7 [(''x'', Atom 1)]),
                  (10, ''lr'', Atom 2), (10, ''opt'', PObj 9 [(''x'', Atom 2)])]"
  have d: "distinct (map fst ?fs)" by simp
  have i: "ids (PObj 0 ?fs) \<subseteq> {..<6}" by simp
  have g: "get_settings_obj (PObj 0 ?fs) (6, []) = Inr (?outs, (28, ?writes))" by code_simp
  note t = expansion_independence[OF d i g]
  from t have v: "get_settings (erase_fields ?fs) = Inr (erase_list ?outs)" by blast
  from t have a: "after ?writes (PObj 0 ?fs) = PObj 0 ?fs" by blast
  from t have "\<forall>a b. a < length ?outs \<and> b < length ?outs \<and> a \<noteq> b \<longrightarrow>
            ids (?outs ! a) \<inter> ids (?outs ! b) = {} \<and>
            (\<forall>j k v. j \<in> ids (?outs ! a) \<longrightarrow>
               mutate j k v (?outs ! b) = ?outs ! b \<and> mutate j k v (PObj 0 ?fs) = PObj 0 ?fs)"
    by blast
  then have "0 < length ?outs \<and> 1 < length ?outs \<and> (0::nat) \<noteq> 1 \<longrightarrow>
            (\<forall>j k v. j \<in> ids (?outs ! 0) \<longrightarrow>
               mutate j k v (?outs ! 1) = ?outs ! 1 \<and> mutate j k v (PObj 0 ?fs) = PObj 0 ?fs)"
    by blast
  then have j: "\<forall>j k v. j \<in> ids (?outs ! 0) \<longrightarrow>
               mutate j k v (?outs ! 1) = ?outs ! 1 \<and> mutate j k v (PObj 0 ?fs) = PObj 0 ?fs" by simp
  then have "16 \<in> ids (?outs ! 0) \<longrightarrow> mutate 16 ''lr'' (Atom 7) (?outs ! 1) = ?outs ! 1" by blast
  then have m1: "mutate 16 ''lr'' (Atom 7) (?outs ! 1) = ?outs ! 1" by simp
  from j have "18 \<in> ids (?outs ! 0) \<longrightarrow> mutate 18 ''x'' (Atom 7) (PObj 0 ?fs) = PObj 0 ?fs" by blast
  then have m2: "mutate 18 ''x'' (Atom 7) (PObj 0 ?fs) = PObj 0 ?fs" by simp
  have m0: "mutate 16 ''lr'' (Atom 7) (?outs ! 0)
       = PObj 16 [(''lr'', Atom 7), (''m'', Mutable 17 9), (''opt'', PObj 18 [(''x'', Atom 1)])]"
    by simp
  from d i g v m0 m1 m2 a show ?thesis by simp
qed

end
